theory Spec2Isabelle
  imports Main "HOL-Library.AList" "HOL-Library.Sublist" "HOL-Library.Multiset"
begin

section \<open>Python values\<close>

text \<open>
  The values that \<^verbatim>\<open>data_transfer\<close> handles: \<^verbatim>\<open>None\<close>, integers, strings, lists,
  tuples, dictionaries and objects that carry a \<^verbatim>\<open>value\<close> attribute (\<open>PObj v\<close> is an
  object \<open>o\<close> with \<^verbatim>\<open>o.value == v\<close>). A dictionary is an association list in insertion
  order; its keys are strings, as the nested mappings of the module have them
  (\<^verbatim>\<open>key: str\<close>). numpy arrays are outside this universe, so the optional
  \<^verbatim>\<open>np.ndarray\<close> entry of \<^verbatim>\<open>iterable_list\<close> never applies.
\<close>

datatype pyval =
    PNone
  | PInt int
  | PStr string
  | PList "pyval list"
  | PTuple "pyval list"
  | PDict "(string \<times> pyval) list"
  | PObj pyval

text \<open>
  The exceptions a call into the module can end with. \<open>NameError key_list\<close> is
  \<^verbatim>\<open>NameError(f'Key {key_list} was not found in settings.json')\<close>; \<open>RecursionError\<close>
  is raised when the interpreter's recursion limit is reached. The parameter is the type
  of the key list that a \<open>NameError\<close> names.
\<close>

datatype 'p exn = TypeError | KeyError | IndexError | NameError 'p | RecursionError

text \<open>
  A line written by \<^verbatim>\<open>print\<close>: \<open>KeyNotFound key_list\<close> is the text
  \<^verbatim>\<open>f'Key {key_list} was not found in settings.json'\<close>.
\<close>

datatype 'p msg = KeyNotFound 'p

text \<open>
  In the value model a Python value is a tree, a function that changes an object in place
  returns the changed tree, and the recursion limit is not modelled (no function of the
  value model raises \<open>RecursionError\<close>).
\<close>

type_synonym error = "pyval exn"

type_synonym message = "pyval msg"

fun is_dict :: "pyval \<Rightarrow> bool" where
  "is_dict (PDict _) = True"
| "is_dict _ = False"

fun is_list :: "pyval \<Rightarrow> bool" where
  "is_list (PList _) = True"
| "is_list _ = False"

fun is_tuple :: "pyval \<Rightarrow> bool" where
  "is_tuple (PTuple _) = True"
| "is_tuple _ = False"

text \<open>Distinct keys in every dictionary, at any depth.\<close>

fun wf :: "pyval \<Rightarrow> bool" where
  "wf (PList xs) = list_all wf xs"
| "wf (PTuple xs) = list_all wf xs"
| "wf (PDict kvs) = (distinct (map fst kvs) \<and> list_all (\<lambda>kv. wf (snd kv)) kvs)"
| "wf (PObj v) = wf v"
| "wf _ = True"

subsection \<open>The object protocol\<close>

text \<open>\<^verbatim>\<open>hash(v)\<close> succeeds: lists and dictionaries are unhashable, a tuple is hashable when
  its elements are.\<close>

fun hashable :: "pyval \<Rightarrow> bool" where
  "hashable (PList _) = False"
| "hashable (PDict _) = False"
| "hashable (PTuple xs) = list_all hashable xs"
| "hashable _ = True"

text \<open>\<^verbatim>\<open>a == b\<close>: dictionaries compare without regard to order. A tree has no identity,
  so an object with a \<^verbatim>\<open>value\<close> attribute compares by that value here, which makes two
  distinct objects with equal values equal; the store model compares such an object by
  identity, as Python does for a class that defines no \<^verbatim>\<open>__eq__\<close>. The comparison is
  reached only by \<^verbatim>\<open>in\<close> on a list or a tuple.\<close>

fun py_eq :: "pyval \<Rightarrow> pyval \<Rightarrow> bool" where
  "py_eq (PList xs) b = (case b of PList ys \<Rightarrow> list_all2 py_eq xs ys | _ \<Rightarrow> False)"
| "py_eq (PTuple xs) b = (case b of PTuple ys \<Rightarrow> list_all2 py_eq xs ys | _ \<Rightarrow> False)"
| "py_eq (PDict kvs) b =
     (case b of
        PDict kws \<Rightarrow> length kvs = length kws \<and>
          list_all (\<lambda>kv. case map_of kws (fst kv) of None \<Rightarrow> False | Some w \<Rightarrow> py_eq (snd kv) w) kvs
      | _ \<Rightarrow> False)"
| "py_eq (PObj v) b = (case b of PObj w \<Rightarrow> py_eq v w | _ \<Rightarrow> False)"
| "py_eq a b = (a = b)"

text \<open>A Python index into a sequence of length \<open>n\<close>: negative indices count from the end.\<close>

definition py_index :: "nat \<Rightarrow> int \<Rightarrow> nat option" where
  "py_index n i =
     (let j = (if i < 0 then int n + i else i)
      in if 0 \<le> j \<and> j < int n then Some (nat j) else None)"

text \<open>\<^verbatim>\<open>obj[k]\<close>.\<close>

fun py_getitem :: "pyval \<Rightarrow> pyval \<Rightarrow> error + pyval" where
  "py_getitem (PDict kvs) k =
     (if \<not> hashable k then Inl TypeError
      else case k of
             PStr s \<Rightarrow> (case map_of kvs s of None \<Rightarrow> Inl KeyError | Some v \<Rightarrow> Inr v)
           | _ \<Rightarrow> Inl KeyError)"
| "py_getitem (PList xs) k =
     (case k of
        PInt i \<Rightarrow> (case py_index (length xs) i of None \<Rightarrow> Inl IndexError | Some j \<Rightarrow> Inr (xs ! j))
      | _ \<Rightarrow> Inl TypeError)"
| "py_getitem (PTuple xs) k =
     (case k of
        PInt i \<Rightarrow> (case py_index (length xs) i of None \<Rightarrow> Inl IndexError | Some j \<Rightarrow> Inr (xs ! j))
      | _ \<Rightarrow> Inl TypeError)"
| "py_getitem (PStr s) k =
     (case k of
        PInt i \<Rightarrow> (case py_index (length s) i of None \<Rightarrow> Inl IndexError | Some j \<Rightarrow> Inr (PStr [s ! j]))
      | _ \<Rightarrow> Inl TypeError)"
| "py_getitem _ k = Inl TypeError"

text \<open>\<^verbatim>\<open>k in obj\<close>.\<close>

fun py_contains :: "pyval \<Rightarrow> pyval \<Rightarrow> error + bool" where
  "py_contains k (PDict kvs) =
     (if \<not> hashable k then Inl TypeError
      else case k of PStr s \<Rightarrow> Inr (s \<in> set (map fst kvs)) | _ \<Rightarrow> Inr False)"
| "py_contains k (PList xs) = Inr (list_ex (py_eq k) xs)"
| "py_contains k (PTuple xs) = Inr (list_ex (py_eq k) xs)"
| "py_contains k (PStr s) = (case k of PStr p \<Rightarrow> Inr (sublist p s) | _ \<Rightarrow> Inl TypeError)"
| "py_contains k _ = Inl TypeError"

text \<open>\<^verbatim>\<open>obj[k] = v\<close>, returning the object after the assignment. The module assigns
  only under a key that \<^verbatim>\<open>in\<close> has found, which in a dictionary is a string.\<close>

fun py_setitem :: "pyval \<Rightarrow> pyval \<Rightarrow> pyval \<Rightarrow> error + pyval" where
  "py_setitem (PDict kvs) k v =
     (if \<not> hashable k then Inl TypeError
      else case k of PStr s \<Rightarrow> Inr (PDict (AList.update s v kvs)) | _ \<Rightarrow> Inl TypeError)"
| "py_setitem (PList xs) k v =
     (case k of
        PInt i \<Rightarrow> (case py_index (length xs) i of None \<Rightarrow> Inl IndexError | Some j \<Rightarrow> Inr (PList (xs[j := v])))
      | _ \<Rightarrow> Inl TypeError)"
| "py_setitem _ k v = Inl TypeError"

text \<open>
  The object \<open>obj\<close> once the object it holds under \<open>k\<close> has been changed in place to
  \<open>v\<close>: Python reaches the same object again through \<open>obj[k]\<close>, the tree is rebuilt
  around it. A string holds no object that can change.
\<close>

fun py_put :: "pyval \<Rightarrow> pyval \<Rightarrow> pyval \<Rightarrow> pyval" where
  "py_put (PDict kvs) (PStr s) v = PDict (AList.update s v kvs)"
| "py_put (PList xs) (PInt i) v =
     (case py_index (length xs) i of None \<Rightarrow> PList xs | Some j \<Rightarrow> PList (xs[j := v]))"
| "py_put (PTuple xs) (PInt i) v =
     (case py_index (length xs) i of None \<Rightarrow> PTuple xs | Some j \<Rightarrow> PTuple (xs[j := v]))"
| "py_put obj k v = obj"

text \<open>\<^verbatim>\<open>obj[:-1]\<close>.\<close>

fun py_init :: "pyval \<Rightarrow> error + pyval" where
  "py_init (PList xs) = Inr (PList (butlast xs))"
| "py_init (PTuple xs) = Inr (PTuple (butlast xs))"
| "py_init (PStr s) = Inr (PStr (butlast s))"
| "py_init _ = Inl TypeError"

text \<open>\<^verbatim>\<open>value.value if hasattr(value, 'value') else value\<close>.\<close>

fun pure_value :: "pyval \<Rightarrow> pyval" where
  "pure_value (PObj v) = v"
| "pure_value v = v"

section \<open>Normalizer\<close>

text \<open>\<^verbatim>\<open>ensure_list(variable, length=1)\<close>; \<^verbatim>\<open>range(length)\<close> is empty for a negative
  \<open>length\<close>.\<close>

definition ensure_list :: "pyval \<Rightarrow> int \<Rightarrow> pyval" where
  "ensure_list variable len =
     (if is_list variable \<or> is_tuple variable then variable
      else PList (replicate (nat len) variable))"

section \<open>Tree search\<close>

text \<open>
  \<^verbatim>\<open>remove_key(key, var)\<close> changes \<open>var\<close> in place and returns nothing; the model
  returns \<open>var\<close> as it is after the call.
\<close>

fun remove_key :: "pyval \<Rightarrow> pyval \<Rightarrow> pyval" where
  "remove_key key (PDict kvs) =
     PDict (map (\<lambda>kv. (fst kv, remove_key key (snd kv)))
              (filter (\<lambda>kv. PStr (fst kv) \<noteq> key) kvs))"
| "remove_key key (PList xs) = PList (map (remove_key key) xs)"
| "remove_key key (PTuple xs) = PTuple (map (remove_key key) xs)"
| "remove_key key v = v"

text \<open>\<^verbatim>\<open>list(gen_dict_extract(key, var))\<close>: the dictionaries in the order they are yielded.\<close>

fun gen_dict_extract :: "pyval \<Rightarrow> pyval \<Rightarrow> pyval list" where
  "gen_dict_extract key (PDict kvs) =
     concat (map (\<lambda>kv.
        (if PStr (fst kv) = key then [PDict kvs] else []) @
        (case snd kv of
           PDict kws \<Rightarrow> gen_dict_extract key (snd kv)
         | PList ds \<Rightarrow> concat (map (gen_dict_extract key) ds)
         | _ \<Rightarrow> [])) kvs)"
| "gen_dict_extract key (PList ds) = concat (map (gen_dict_extract key) ds)"
| "gen_dict_extract key (PTuple ds) = concat (map (gen_dict_extract key) ds)"
| "gen_dict_extract key v = []"

section \<open>Path accessor\<close>

text \<open>
  The keys \<^verbatim>\<open>key_list[0], ..., key_list[len(key_list) - 1]\<close> that the accessors read.
  \<^verbatim>\<open>len\<close> fails on \<^verbatim>\<open>None\<close>, an integer or an object; a dictionary has a length but
  none of the integer keys \<^verbatim>\<open>0\<close> and \<^verbatim>\<open>-1\<close> that would be read next.
\<close>

fun key_seq :: "pyval \<Rightarrow> error + pyval list" where
  "key_seq (PList ks) = Inr ks"
| "key_seq (PTuple ks) = Inr ks"
| "key_seq (PStr s) = Inr (map (\<lambda>c. PStr [c]) s)"
| "key_seq (PDict kvs) = Inl KeyError"
| "key_seq _ = Inl TypeError"

text \<open>\<^verbatim>\<open>for k in keys: sub_dict = sub_dict[k]\<close>.\<close>

fun descend :: "pyval list \<Rightarrow> pyval \<Rightarrow> error + pyval" where
  "descend [] sub_dict = Inr sub_dict"
| "descend (k # ks) sub_dict =
     (case py_getitem sub_dict k of
        Inl e \<Rightarrow> Inl e
      | Inr s \<Rightarrow> descend ks s)"

definition get_dict_entry :: "pyval \<Rightarrow> pyval \<Rightarrow> error + pyval" where
  "get_dict_entry key_list source_dict =
     (if \<not> is_dict source_dict then Inl TypeError
      else case key_seq key_list of
             Inl e \<Rightarrow> Inl e
           | Inr ks \<Rightarrow>
               (case descend (butlast ks) source_dict of
                  Inl e \<Rightarrow> Inl e
                | Inr sub_dict \<Rightarrow>
                    if ks = [] then Inl IndexError else py_getitem sub_dict (last ks)))"

text \<open>
  Lines 124 to 135 of \<^verbatim>\<open>set_dict_entry\<close>, on the object \<open>sub_dict\<close> that the loop has
  reached: the object after these lines, and what they print.
\<close>

definition assign_entry ::
  "pyval \<Rightarrow> pyval \<Rightarrow> pyval \<Rightarrow> string \<Rightarrow> pyval \<Rightarrow> error + pyval \<times> message list" where
  "assign_entry v key_list k mode sub_dict =
     (case py_contains k sub_dict of
        Inl e \<Rightarrow> Inl e
      | Inr found \<Rightarrow>
          if found then
            (case py_setitem sub_dict k (pure_value v) of
               Inl e \<Rightarrow> Inl e
             | Inr sub_dict' \<Rightarrow> Inr (sub_dict', []))
          else if mode = ''strict'' then Inl (NameError key_list)
          else Inr (sub_dict, [KeyNotFound key_list]))"

text \<open>
  The loop of \<^verbatim>\<open>set_dict_entry\<close> followed by the change \<open>f\<close> of the object it reaches.
  Python changes that object in place; here every object on the way is rebuilt around
  its changed child.
\<close>

fun write_through ::
  "pyval list \<Rightarrow> (pyval \<Rightarrow> error + pyval \<times> message list) \<Rightarrow> pyval
     \<Rightarrow> error + pyval \<times> message list" where
  "write_through [] f sub_dict = f sub_dict"
| "write_through (k # ks) f sub_dict =
     (case py_getitem sub_dict k of
        Inl e \<Rightarrow> Inl e
      | Inr s \<Rightarrow>
          (case write_through ks f s of
             Inl e \<Rightarrow> Inl e
           | Inr (s', out) \<Rightarrow> Inr (py_put sub_dict k s', out)))"

text \<open>\<^verbatim>\<open>set_dict_entry(value, key_list, target_dict, mode)\<close>: the dictionary that is
  returned, and what was printed.\<close>

definition set_dict_entry ::
  "pyval \<Rightarrow> pyval \<Rightarrow> pyval \<Rightarrow> string \<Rightarrow> error + pyval \<times> message list" where
  "set_dict_entry v key_list target_dict mode =
     (if \<not> is_dict target_dict then Inl TypeError
      else case key_seq key_list of
             Inl e \<Rightarrow> Inl e
           | Inr ks \<Rightarrow>
               write_through (butlast ks)
                 (\<lambda>sub_dict. if ks = [] then Inl IndexError
                              else assign_entry v key_list (last ks) mode sub_dict)
                 target_dict)"

section \<open>Transfer orchestrator\<close>

text \<open>
  In the value model the elements found by the search are read as they were at the start
  of the call, and a value written into the target copy is a tree of its own. Python
  stores the value by reference, and \<^verbatim>\<open>copy.deepcopy\<close> keeps an object that the target
  reaches along two paths as one object of the copy. The value model therefore describes
  a call only up to the sharing of objects: it differs from Python as soon as a write goes
  through an object that is reached along two paths, be it a source value that an earlier
  pass has stored in the copy or a part of the target that occurs in it twice. What
  happens to shared objects is settled on the store model further down, which follows the
  references.
\<close>

text \<open>
  The state of the loops of \<^verbatim>\<open>dict_transfer\<close>: \<^verbatim>\<open>sub_dict\<close> (which is
  \<^verbatim>\<open>target_dict_copy\<close> throughout, since \<^verbatim>\<open>set_dict_entry\<close> returns its argument),
  \<^verbatim>\<open>name_lists\<close>, and the lines printed so far.
\<close>

type_synonym transfer_state = "pyval \<times> pyval list \<times> message list"

text \<open>Lines 236 to 246: the list \<^verbatim>\<open>value_list\<close> built from the indices \<open>js\<close>.\<close>

fun fan_out :: "pyval \<Rightarrow> pyval list \<Rightarrow> error + pyval list" where
  "fan_out gui_values [] = Inr []"
| "fan_out gui_values (j # js) =
     (case (case py_getitem gui_values j of
              Inl IndexError \<Rightarrow> py_getitem gui_values (PInt (- 1))
            | r \<Rightarrow> r) of
        Inl e \<Rightarrow> Inl e
      | Inr v \<Rightarrow>
          (case fan_out gui_values js of
             Inl e \<Rightarrow> Inl e
           | Inr value_list \<Rightarrow> Inr (pure_value v # value_list)))"

text \<open>Lines 233 to 255: one pass of the loop over \<^verbatim>\<open>enumerate(sim_names)\<close>.\<close>

definition transfer_path ::
  "pyval \<Rightarrow> bool \<Rightarrow> nat \<Rightarrow> pyval \<Rightarrow> transfer_state \<Rightarrow> error + transfer_state" where
  "transfer_path gui_values multi_variable i sim_name_list st =
     (case st of (sub_dict, name_lists, out) \<Rightarrow>
        (case py_getitem sim_name_list (PInt (- 1)) of
           Inl e \<Rightarrow> Inl e
         | Inr l \<Rightarrow>
             (case l of
                PList js \<Rightarrow>
                  (case py_init sim_name_list of
                     Inl e \<Rightarrow> Inl e
                   | Inr pure_name_list \<Rightarrow>
                       (case fan_out gui_values js of
                          Inl e \<Rightarrow> Inl e
                        | Inr value_list \<Rightarrow>
                            (case set_dict_entry (PList value_list) pure_name_list sub_dict
                                    ''moderate'' of
                               Inl e \<Rightarrow> Inl e
                             | Inr (sub_dict', msgs) \<Rightarrow>
                                 Inr (sub_dict', name_lists @ [pure_name_list], out @ msgs))))
              | _ \<Rightarrow>
                  (case py_getitem gui_values (PInt (if multi_variable then int i else 0)) of
                     Inl e \<Rightarrow> Inl e
                   | Inr gui_value \<Rightarrow>
                       (case set_dict_entry gui_value sim_name_list sub_dict ''moderate'' of
                          Inl e \<Rightarrow> Inl e
                        | Inr (sub_dict', msgs) \<Rightarrow>
                            Inr (sub_dict', name_lists @ [sim_name_list], out @ msgs))))))"

fun transfer_paths ::
  "pyval \<Rightarrow> bool \<Rightarrow> nat \<Rightarrow> pyval list \<Rightarrow> transfer_state \<Rightarrow> error + transfer_state" where
  "transfer_paths gui_values multi_variable i [] st = Inr st"
| "transfer_paths gui_values multi_variable i (sim_name_list # rest) st =
     (case transfer_path gui_values multi_variable i sim_name_list st of
        Inl e \<Rightarrow> Inl e
      | Inr st' \<Rightarrow> transfer_paths gui_values multi_variable (Suc i) rest st')"

text \<open>The elements of a list or a tuple, which is what \<^verbatim>\<open>ensure_list\<close> returns.\<close>

fun elements :: "pyval \<Rightarrow> pyval list" where
  "elements (PList xs) = xs"
| "elements (PTuple xs) = xs"
| "elements _ = []"

text \<open>Lines 218 to 262: one pass of the loop over \<^verbatim>\<open>extracted_gui_entries\<close>.\<close>

definition transfer_entry ::
  "pyval \<Rightarrow> pyval \<Rightarrow> pyval \<Rightarrow> transfer_state \<Rightarrow> error + transfer_state" where
  "transfer_entry target_name_key value_key gui_entry st =
     (case st of (sub_dict, name_lists, out) \<Rightarrow>
        (case py_getitem gui_entry target_name_key of
           Inl e \<Rightarrow> Inl e
         | Inr names \<Rightarrow>
             (let sim_names = ensure_list names 1 in
              case py_getitem sim_names (PInt 0) of
                Inl e \<Rightarrow> Inl e
              | Inr first \<Rightarrow>
                  if is_list first then
                    (case py_getitem gui_entry value_key of
                       Inl e \<Rightarrow> Inl e
                     | Inr v \<Rightarrow>
                         (let gui_values = ensure_list v 1;
                              multi_variable =
                                (length (elements sim_names) = length (elements gui_values))
                          in transfer_paths gui_values multi_variable 0 (elements sim_names) st))
                  else
                    (case py_contains value_key gui_entry of
                       Inl e \<Rightarrow> Inl e
                     | Inr has_value \<Rightarrow>
                         if has_value then
                           (case py_getitem gui_entry value_key of
                              Inl e \<Rightarrow> Inl e
                            | Inr v \<Rightarrow>
                                (case set_dict_entry v sim_names sub_dict ''strict'' of
                                   Inl e \<Rightarrow> Inl e
                                 | Inr (sub_dict', msgs) \<Rightarrow>
                                     Inr (sub_dict', name_lists @ [sim_names], out @ msgs)))
                         else Inr (sub_dict, name_lists @ [sim_names], out)))))"

fun transfer_entries ::
  "pyval \<Rightarrow> pyval \<Rightarrow> pyval list \<Rightarrow> transfer_state \<Rightarrow> error + transfer_state" where
  "transfer_entries target_name_key value_key [] st = Inr st"
| "transfer_entries target_name_key value_key (gui_entry # rest) st =
     (case transfer_entry target_name_key value_key gui_entry st of
        Inl e \<Rightarrow> Inl e
      | Inr st' \<Rightarrow> transfer_entries target_name_key value_key rest st')"

text \<open>
  \<^verbatim>\<open>copy.deepcopy\<close> of a tree of values is the same tree in new objects: in the
  value model it changes nothing.
\<close>

definition deepcopy :: "pyval \<Rightarrow> pyval" where
  "deepcopy v = v"

text \<open>\<^verbatim>\<open>dict_transfer\<close> with what it prints.\<close>

definition dict_transfer_out ::
  "pyval \<Rightarrow> pyval \<Rightarrow> pyval \<Rightarrow> pyval \<Rightarrow> error + transfer_state" where
  "dict_transfer_out source_dict target_dict target_name_key value_key =
     (let target_dict_copy = deepcopy target_dict;
          extracted_gui_entries = gen_dict_extract target_name_key source_dict
      in transfer_entries target_name_key value_key extracted_gui_entries
           (target_dict_copy, [], []))"

text \<open>\<^verbatim>\<open>dict_transfer(source_dict, target_dict, target_name_key, value_key)\<close>: the pair
  it returns.\<close>

definition dict_transfer ::
  "pyval \<Rightarrow> pyval \<Rightarrow> pyval \<Rightarrow> pyval \<Rightarrow> error + pyval \<times> pyval list" where
  "dict_transfer source_dict target_dict target_name_key value_key =
     (case dict_transfer_out source_dict target_dict target_name_key value_key of
        Inl e \<Rightarrow> Inl e
      | Inr (target_dict_copy, name_lists, out) \<Rightarrow> Inr (target_dict_copy, name_lists))"

section \<open>The store model\<close>

text \<open>
  Whether \<^verbatim>\<open>dict_transfer\<close> changes an object of its caller depends on which objects are
  shared, which a tree of values cannot say. In the store model a value is \<^verbatim>\<open>None\<close>, an
  integer, a string, a tuple of values, or a reference to an object in the store; the
  objects are the mutable ones: lists, dictionaries and objects with a \<^verbatim>\<open>value\<close>
  attribute. The store is the list of all objects, an address is an index into it, and a
  new object is appended. The functions of the module are translated again, statement by
  statement, with their writes done in place.
\<close>

type_synonym addr = nat

datatype hval = HNone | HInt int | HStr string | HTuple "hval list" | HRef addr

datatype hobj = HList "hval list" | HDict "(string \<times> hval) list" | HObj hval

type_synonym store = "hobj list"

type_synonym herror = "hval exn"

text \<open>
  A statement takes the store to a result, a value or the exception raised, and the store
  it leaves. \<open>bind\<close> runs one statement after another and stops at the first exception;
  \<open>reads\<close> is a computation that only reads the store.
\<close>

type_synonym 'a prog = "store \<Rightarrow> (herror + 'a) \<times> store"

definition ret :: "'a \<Rightarrow> 'a prog" where
  "ret x h = (Inr x, h)"

definition throw :: "herror \<Rightarrow> 'a prog" where
  "throw e h = (Inl e, h)"

definition bind :: "'a prog \<Rightarrow> ('a \<Rightarrow> 'b prog) \<Rightarrow> 'b prog" where
  "bind m f h = (case m h of (Inl e, h') \<Rightarrow> (Inl e, h') | (Inr x, h') \<Rightarrow> f x h')"

definition reads :: "(store \<Rightarrow> herror + 'a) \<Rightarrow> 'a prog" where
  "reads f h = (f h, h)"

text \<open>Creating an object, and replacing the content of an existing one.\<close>

definition alloc :: "hobj \<Rightarrow> hval prog" where
  "alloc obj h = (Inr (HRef (length h)), h @ [obj])"

definition setobj :: "hval \<Rightarrow> hobj \<Rightarrow> unit prog" where
  "setobj r obj h =
     (case r of
        HRef a \<Rightarrow> (if a < length h then (Inr (), h[a := obj]) else (Inl TypeError, h))
      | _ \<Rightarrow> (Inl TypeError, h))"

text \<open>
  What \<^verbatim>\<open>isinstance\<close> and the type of a value decide: the kind of a value with its
  content, read through the store. \<open>NoObject\<close> is a reference to no object, which no
  Python program can hold.
\<close>

datatype shape =
    IsNone
  | IsInt int
  | IsStr string
  | IsTuple "hval list"
  | IsList "hval list"
  | IsDict "(string \<times> hval) list"
  | IsObj hval
  | NoObject

definition shape :: "store \<Rightarrow> hval \<Rightarrow> shape" where
  "shape h v =
     (case v of
        HNone \<Rightarrow> IsNone
      | HInt i \<Rightarrow> IsInt i
      | HStr s \<Rightarrow> IsStr s
      | HTuple xs \<Rightarrow> IsTuple xs
      | HRef a \<Rightarrow>
          (if a < length h then
             (case h ! a of HList xs \<Rightarrow> IsList xs | HDict kvs \<Rightarrow> IsDict kvs | HObj x \<Rightarrow> IsObj x)
           else NoObject))"

definition is_list_st :: "store \<Rightarrow> hval \<Rightarrow> bool" where
  "is_list_st h v = (case shape h v of IsList xs \<Rightarrow> True | _ \<Rightarrow> False)"

definition is_dict_st :: "store \<Rightarrow> hval \<Rightarrow> bool" where
  "is_dict_st h v = (case shape h v of IsDict kvs \<Rightarrow> True | _ \<Rightarrow> False)"

definition is_tuple_st :: "store \<Rightarrow> hval \<Rightarrow> bool" where
  "is_tuple_st h v = (case shape h v of IsTuple xs \<Rightarrow> True | _ \<Rightarrow> False)"

fun hashable_st :: "store \<Rightarrow> hval \<Rightarrow> bool" where
  "hashable_st h (HTuple vs) = list_all (hashable_st h) vs"
| "hashable_st h v = (case shape h v of IsList xs \<Rightarrow> False | IsDict kvs \<Rightarrow> False | _ \<Rightarrow> True)"

text \<open>
  \<^verbatim>\<open>a == b\<close>. The same value or the same object is equal to itself; tuples and lists
  compare element by element, dictionaries item by item, objects with a \<^verbatim>\<open>value\<close>
  attribute by identity. Each level of nesting takes one level of the recursion limit \<open>n\<close>.
\<close>

datatype comparison =
    Decided bool
  | Elementwise "hval list" "hval list"
  | Itemwise "(string \<times> hval) list" "(string \<times> hval) list"

definition compare :: "store \<Rightarrow> hval \<Rightarrow> hval \<Rightarrow> comparison" where
  "compare h a b =
     (if a = b then Decided True
      else case shape h a of
             IsTuple xs \<Rightarrow>
               (case shape h b of
                  IsTuple ys \<Rightarrow> if length xs = length ys then Elementwise xs ys else Decided False
                | _ \<Rightarrow> Decided False)
           | IsList xs \<Rightarrow>
               (case shape h b of
                  IsList ys \<Rightarrow> if length xs = length ys then Elementwise xs ys else Decided False
                | _ \<Rightarrow> Decided False)
           | IsDict kvs \<Rightarrow>
               (case shape h b of
                  IsDict kws \<Rightarrow> if length kvs = length kws then Itemwise kvs kws else Decided False
                | _ \<Rightarrow> Decided False)
           | _ \<Rightarrow> Decided False)"

function (sequential) eq_st :: "nat \<Rightarrow> store \<Rightarrow> hval \<Rightarrow> hval \<Rightarrow> herror + bool"
  and eq_all :: "nat \<Rightarrow> store \<Rightarrow> hval list \<Rightarrow> hval list \<Rightarrow> herror + bool"
  and eq_items :: "nat \<Rightarrow> store \<Rightarrow> (string \<times> hval) list \<Rightarrow> (string \<times> hval) list \<Rightarrow> herror + bool"
where
  "eq_st n h a b =
     (case compare h a b of
        Decided r \<Rightarrow> Inr r
      | Elementwise xs ys \<Rightarrow>
          (case n of 0 \<Rightarrow> Inl RecursionError | Suc m \<Rightarrow> eq_all m h xs ys)
      | Itemwise kvs kws \<Rightarrow>
          (case n of 0 \<Rightarrow> Inl RecursionError | Suc m \<Rightarrow> eq_items m h kvs kws))"
| "eq_all n h [] ys = Inr (ys = [])"
| "eq_all n h (x # xs) ys =
     (case ys of
        [] \<Rightarrow> Inr False
      | y # ys' \<Rightarrow>
          (case eq_st n h x y of
             Inl e \<Rightarrow> Inl e
           | Inr same \<Rightarrow> if same then eq_all n h xs ys' else Inr False))"
| "eq_items n h [] kws = Inr True"
| "eq_items n h (kv # kvs) kws =
     (case map_of kws (fst kv) of
        None \<Rightarrow> Inr False
      | Some w \<Rightarrow>
          (case eq_st n h (snd kv) w of
             Inl e \<Rightarrow> Inl e
           | Inr same \<Rightarrow> if same then eq_items n h kvs kws else Inr False))"
  by pat_completeness auto
termination
  by (relation "inv_image (less_than <*lex*> less_than)
        (\<lambda>x. case x of
               Inl (n, h, a, b) \<Rightarrow> (n, 0)
             | Inr (Inl (n, h, xs, ys)) \<Rightarrow> (n, Suc (length xs))
             | Inr (Inr (n, h, kvs, kws)) \<Rightarrow> (n, Suc (length kvs)))") auto

fun any_eq :: "nat \<Rightarrow> store \<Rightarrow> hval \<Rightarrow> hval list \<Rightarrow> herror + bool" where
  "any_eq n h k [] = Inr False"
| "any_eq n h k (x # xs) =
     (case eq_st n h x k of
        Inl e \<Rightarrow> Inl e
      | Inr same \<Rightarrow> if same then Inr True else any_eq n h k xs)"

text \<open>
  The object protocol on the store: \<^verbatim>\<open>obj[k]\<close>, \<^verbatim>\<open>k in obj\<close>, \<^verbatim>\<open>obj[k] = v\<close> (which
  replaces the content of the object \<open>obj\<close> refers to), the unwrapping of a \<^verbatim>\<open>value\<close>
  attribute, \<^verbatim>\<open>obj[:-1]\<close> (a new list when \<open>obj\<close> is a list), the elements of a list or
  tuple, and \<^verbatim>\<open>ensure_list\<close> (a new list when the value is neither list nor tuple).
\<close>

definition index_st :: "hval list \<Rightarrow> hval \<Rightarrow> herror + hval" where
  "index_st xs k =
     (case k of
        HInt i \<Rightarrow> (case py_index (length xs) i of None \<Rightarrow> Inl IndexError | Some j \<Rightarrow> Inr (xs ! j))
      | _ \<Rightarrow> Inl TypeError)"

definition lookup_st :: "store \<Rightarrow> (string \<times> hval) list \<Rightarrow> hval \<Rightarrow> herror + hval" where
  "lookup_st h kvs k =
     (if \<not> hashable_st h k then Inl TypeError
      else case k of
             HStr s \<Rightarrow> (case map_of kvs s of None \<Rightarrow> Inl KeyError | Some v \<Rightarrow> Inr v)
           | _ \<Rightarrow> Inl KeyError)"

definition getitem_st :: "hval \<Rightarrow> hval \<Rightarrow> store \<Rightarrow> herror + hval" where
  "getitem_st obj k h =
     (case shape h obj of
        IsDict kvs \<Rightarrow> lookup_st h kvs k
      | IsList xs \<Rightarrow> index_st xs k
      | IsTuple xs \<Rightarrow> index_st xs k
      | IsStr s \<Rightarrow> index_st (map (\<lambda>c. HStr [c]) s) k
      | _ \<Rightarrow> Inl TypeError)"

definition contains_st :: "nat \<Rightarrow> hval \<Rightarrow> hval \<Rightarrow> store \<Rightarrow> herror + bool" where
  "contains_st n k obj h =
     (case shape h obj of
        IsDict kvs \<Rightarrow>
          (if \<not> hashable_st h k then Inl TypeError
           else case k of HStr s \<Rightarrow> Inr (s \<in> set (map fst kvs)) | _ \<Rightarrow> Inr False)
      | IsList xs \<Rightarrow> any_eq n h k xs
      | IsTuple xs \<Rightarrow> any_eq n h k xs
      | IsStr s \<Rightarrow> (case k of HStr p \<Rightarrow> Inr (sublist p s) | _ \<Rightarrow> Inl TypeError)
      | _ \<Rightarrow> Inl TypeError)"

definition setitem_st :: "hval \<Rightarrow> hval \<Rightarrow> hval \<Rightarrow> unit prog" where
  "setitem_st obj k v h =
     (case shape h obj of
        IsDict kvs \<Rightarrow>
          (if \<not> hashable_st h k then (Inl TypeError, h)
           else case k of
                  HStr s \<Rightarrow> setobj obj (HDict (AList.update s v kvs)) h
                | _ \<Rightarrow> (Inl TypeError, h))
      | IsList xs \<Rightarrow>
          (case k of
             HInt i \<Rightarrow>
               (case py_index (length xs) i of
                  None \<Rightarrow> (Inl IndexError, h)
                | Some j \<Rightarrow> setobj obj (HList (xs[j := v])) h)
           | _ \<Rightarrow> (Inl TypeError, h))
      | _ \<Rightarrow> (Inl TypeError, h))"

definition pure_value_st :: "hval \<Rightarrow> store \<Rightarrow> herror + hval" where
  "pure_value_st v h = (case shape h v of IsObj x \<Rightarrow> Inr x | _ \<Rightarrow> Inr v)"

definition init_st :: "hval \<Rightarrow> hval prog" where
  "init_st obj h =
     (case shape h obj of
        IsList xs \<Rightarrow> alloc (HList (butlast xs)) h
      | IsTuple xs \<Rightarrow> (Inr (HTuple (butlast xs)), h)
      | IsStr s \<Rightarrow> (Inr (HStr (butlast s)), h)
      | _ \<Rightarrow> (Inl TypeError, h))"

definition elements_st :: "hval \<Rightarrow> store \<Rightarrow> herror + hval list" where
  "elements_st obj h =
     (case shape h obj of
        IsList xs \<Rightarrow> Inr xs
      | IsTuple xs \<Rightarrow> Inr xs
      | _ \<Rightarrow> Inl TypeError)"

definition ensure_list_st :: "hval \<Rightarrow> int \<Rightarrow> hval prog" where
  "ensure_list_st variable len h =
     (if is_list_st h variable \<or> is_tuple_st h variable then (Inr variable, h)
      else alloc (HList (replicate (nat len) variable)) h)"

text \<open>
  \<^verbatim>\<open>list(gen_dict_extract(key, var))\<close> with \<open>n\<close> levels of recursion left: the references
  to the dictionaries yielded, in order. The generator only reads the store.
\<close>

definition then_yield :: "herror + 'a list \<Rightarrow> herror + 'a list \<Rightarrow> herror + 'a list" where
  "then_yield r1 r2 =
     (case r1 of
        Inl e \<Rightarrow> Inl e
      | Inr xs \<Rightarrow> (case r2 of Inl e \<Rightarrow> Inl e | Inr ys \<Rightarrow> Inr (xs @ ys)))"

function (sequential) gen_dict_extract_st :: "nat \<Rightarrow> hval \<Rightarrow> hval \<Rightarrow> store \<Rightarrow> herror + hval list"
  and gen_each :: "nat \<Rightarrow> hval \<Rightarrow> hval list \<Rightarrow> store \<Rightarrow> herror + hval list"
  and gen_items :: "nat \<Rightarrow> hval \<Rightarrow> hval \<Rightarrow> (string \<times> hval) list \<Rightarrow> store \<Rightarrow> herror + hval list"
where
  "gen_dict_extract_st 0 key var h = Inl RecursionError"
| "gen_dict_extract_st (Suc n) key var h =
     (case shape h var of
        IsDict kvs \<Rightarrow> gen_items n key var kvs h
      | IsList ds \<Rightarrow> gen_each n key ds h
      | IsTuple ds \<Rightarrow> gen_each n key ds h
      | _ \<Rightarrow> Inr [])"
| "gen_each n key [] h = Inr []"
| "gen_each n key (d # ds) h =
     then_yield (gen_dict_extract_st n key d h) (gen_each n key ds h)"
| "gen_items n key var [] h = Inr []"
| "gen_items n key var (kv # kvs) h =
     then_yield (Inr (if HStr (fst kv) = key then [var] else []))
       (then_yield
          (case shape h (snd kv) of
             IsDict kws \<Rightarrow> gen_dict_extract_st n key (snd kv) h
           | IsList ds \<Rightarrow> gen_each n key ds h
           | _ \<Rightarrow> Inr [])
          (gen_items n key var kvs h))"
  by pat_completeness auto
termination
  by (relation "inv_image (less_than <*lex*> less_than <*lex*> less_than)
        (\<lambda>x. case x of
               Inl (n, key, var, h) \<Rightarrow> (n, 0, 0)
             | Inr (Inl (n, key, ds, h)) \<Rightarrow> (n, 1, length ds)
             | Inr (Inr (n, key, var, kvs, h)) \<Rightarrow> (n, 2, length kvs))") auto

text \<open>The path accessors, as in the value model but reading and writing the store.\<close>

definition key_seq_st :: "hval \<Rightarrow> store \<Rightarrow> herror + hval list" where
  "key_seq_st key_list h =
     (case shape h key_list of
        IsList ks \<Rightarrow> Inr ks
      | IsTuple ks \<Rightarrow> Inr ks
      | IsStr s \<Rightarrow> Inr (map (\<lambda>c. HStr [c]) s)
      | IsDict kvs \<Rightarrow> Inl KeyError
      | _ \<Rightarrow> Inl TypeError)"

fun descend_st :: "hval list \<Rightarrow> hval \<Rightarrow> store \<Rightarrow> herror + hval" where
  "descend_st [] sub_dict h = Inr sub_dict"
| "descend_st (k # ks) sub_dict h =
     (case getitem_st sub_dict k h of
        Inl e \<Rightarrow> Inl e
      | Inr s \<Rightarrow> descend_st ks s h)"

definition get_dict_entry_st :: "hval \<Rightarrow> hval \<Rightarrow> store \<Rightarrow> herror + hval" where
  "get_dict_entry_st key_list source_dict h =
     (if \<not> is_dict_st h source_dict then Inl TypeError
      else case key_seq_st key_list h of
             Inl e \<Rightarrow> Inl e
           | Inr ks \<Rightarrow>
               (case descend_st (butlast ks) source_dict h of
                  Inl e \<Rightarrow> Inl e
                | Inr sub_dict \<Rightarrow>
                    if ks = [] then Inl IndexError else getitem_st sub_dict (last ks) h))"

definition set_dict_entry_st ::
  "nat \<Rightarrow> hval \<Rightarrow> hval \<Rightarrow> hval \<Rightarrow> string \<Rightarrow> (hval \<times> hval msg list) prog" where
  "set_dict_entry_st n v key_list target_dict mode =
     bind (reads (\<lambda>h. if is_dict_st h target_dict then key_seq_st key_list h else Inl TypeError))
       (\<lambda>ks.
     bind (reads (descend_st (butlast ks) target_dict)) (\<lambda>sub_dict.
     if ks = [] then throw IndexError
     else
       bind (reads (contains_st n (last ks) sub_dict)) (\<lambda>found.
       if found then
         bind (reads (pure_value_st v)) (\<lambda>pv.
         bind (setitem_st sub_dict (last ks) pv) (\<lambda>u.
         ret (target_dict, [])))
       else if mode = ''strict'' then throw (NameError key_list)
       else ret (target_dict, [KeyNotFound key_list]))))"

type_synonym transfer_state_st = "hval \<times> hval list \<times> hval msg list"

text \<open>\<^verbatim>\<open>try: value = gui_values[j]\<close> \<^verbatim>\<open>except IndexError: value = gui_values[-1]\<close>.\<close>

definition value_at :: "hval \<Rightarrow> hval \<Rightarrow> store \<Rightarrow> herror + hval" where
  "value_at gui_values j h =
     (case getitem_st gui_values j h of
        Inl e \<Rightarrow> if e = IndexError then getitem_st gui_values (HInt (- 1)) h else Inl e
      | Inr v \<Rightarrow> Inr v)"

fun fan_out_st :: "hval \<Rightarrow> hval list \<Rightarrow> store \<Rightarrow> herror + hval list" where
  "fan_out_st gui_values [] h = Inr []"
| "fan_out_st gui_values (j # js) h =
     (case value_at gui_values j h of
        Inl e \<Rightarrow> Inl e
      | Inr v \<Rightarrow>
          (case pure_value_st v h of
             Inl e \<Rightarrow> Inl e
           | Inr pv \<Rightarrow>
               (case fan_out_st gui_values js h of
                  Inl e \<Rightarrow> Inl e
                | Inr value_list \<Rightarrow> Inr (pv # value_list))))"

definition transfer_path_st ::
  "nat \<Rightarrow> hval \<Rightarrow> bool \<Rightarrow> nat \<Rightarrow> hval \<Rightarrow> transfer_state_st \<Rightarrow> transfer_state_st prog" where
  "transfer_path_st n gui_values multi_variable i sim_name_list st =
     (case st of (sub_dict, name_lists, out) \<Rightarrow>
        bind (reads (getitem_st sim_name_list (HInt (- 1)))) (\<lambda>l.
        bind (reads (\<lambda>h. Inr (is_list_st h l))) (\<lambda>fan.
        if fan then
          bind (init_st sim_name_list) (\<lambda>pure_name_list.
          bind (reads (\<lambda>h. case elements_st l h of
                              Inl e \<Rightarrow> Inl e
                            | Inr js \<Rightarrow> fan_out_st gui_values js h)) (\<lambda>value_list.
          bind (alloc (HList value_list)) (\<lambda>vl.
          bind (set_dict_entry_st n vl pure_name_list sub_dict ''moderate'') (\<lambda>r.
          ret (fst r, name_lists @ [pure_name_list], out @ snd r)))))
        else
          bind (reads (getitem_st gui_values (HInt (if multi_variable then int i else 0))))
            (\<lambda>gui_value.
          bind (set_dict_entry_st n gui_value sim_name_list sub_dict ''moderate'') (\<lambda>r.
          ret (fst r, name_lists @ [sim_name_list], out @ snd r))))))"

text \<open>
  The loop over \<^verbatim>\<open>enumerate(sim_names)\<close> reads element \<open>i\<close> of the list as it is when
  the pass begins; \<open>k\<close> passes are left. No statement of the module changes the length of
  an existing list.
\<close>

fun transfer_paths_st ::
  "nat \<Rightarrow> hval \<Rightarrow> bool \<Rightarrow> hval \<Rightarrow> nat \<Rightarrow> nat \<Rightarrow> transfer_state_st \<Rightarrow> transfer_state_st prog" where
  "transfer_paths_st n gui_values multi_variable sim_names i 0 st = ret st"
| "transfer_paths_st n gui_values multi_variable sim_names i (Suc k) st =
     bind (reads (getitem_st sim_names (HInt (int i)))) (\<lambda>sim_name_list.
     bind (transfer_path_st n gui_values multi_variable i sim_name_list st) (\<lambda>st'.
     transfer_paths_st n gui_values multi_variable sim_names (Suc i) k st'))"

definition transfer_entry_st ::
  "nat \<Rightarrow> hval \<Rightarrow> hval \<Rightarrow> hval \<Rightarrow> transfer_state_st \<Rightarrow> transfer_state_st prog" where
  "transfer_entry_st n target_name_key value_key gui_entry st =
     (case st of (sub_dict, name_lists, out) \<Rightarrow>
        bind (reads (getitem_st gui_entry target_name_key)) (\<lambda>names.
        bind (ensure_list_st names 1) (\<lambda>sim_names.
        bind (reads (getitem_st sim_names (HInt 0))) (\<lambda>first.
        bind (reads (\<lambda>h. Inr (is_list_st h first))) (\<lambda>multi.
        if multi then
          bind (reads (getitem_st gui_entry value_key)) (\<lambda>v.
          bind (ensure_list_st v 1) (\<lambda>gui_values.
          bind (reads (elements_st sim_names)) (\<lambda>xs.
          bind (reads (elements_st gui_values)) (\<lambda>ys.
          transfer_paths_st n gui_values (length xs = length ys) sim_names 0 (length xs) st))))
        else
          bind (reads (contains_st n value_key gui_entry)) (\<lambda>has_value.
          if has_value then
            bind (reads (getitem_st gui_entry value_key)) (\<lambda>v.
            bind (set_dict_entry_st n v sim_names sub_dict ''strict'') (\<lambda>r.
            ret (fst r, name_lists @ [sim_names], out @ snd r)))
          else ret (sub_dict, name_lists @ [sim_names], out)))))))"

fun transfer_entries_st ::
  "nat \<Rightarrow> hval \<Rightarrow> hval \<Rightarrow> hval list \<Rightarrow> transfer_state_st \<Rightarrow> transfer_state_st prog" where
  "transfer_entries_st n target_name_key value_key [] st = ret st"
| "transfer_entries_st n target_name_key value_key (gui_entry # rest) st =
     bind (transfer_entry_st n target_name_key value_key gui_entry st) (\<lambda>st'.
     transfer_entries_st n target_name_key value_key rest st')"

text \<open>
  \<^verbatim>\<open>copy.deepcopy\<close>, from the documentation of the standard library: a new object for
  every list, dictionary and object reached, filled with the copies of its content; the
  \<open>memo\<close> maps an object copied before to its copy, so that shared and cyclic structures
  keep their shape. A tuple is rebuilt from the copies of its elements.
\<close>

type_synonym memo = "(addr \<times> hval) list"

function (sequential) deepcopy_st :: "nat \<Rightarrow> hval \<Rightarrow> memo \<Rightarrow> (hval \<times> memo) prog"
  and deepcopy_each :: "nat \<Rightarrow> hval list \<Rightarrow> memo \<Rightarrow> (hval list \<times> memo) prog"
  and deepcopy_items :: "nat \<Rightarrow> (string \<times> hval) list \<Rightarrow> memo \<Rightarrow> ((string \<times> hval) list \<times> memo) prog"
where
  "deepcopy_st 0 v memo = throw RecursionError"
| "deepcopy_st (Suc n) v memo =
     (case v of
        HRef a \<Rightarrow>
          (case map_of memo a of
             Some y \<Rightarrow> ret (y, memo)
           | None \<Rightarrow>
               bind (reads (\<lambda>h. Inr (shape h v))) (\<lambda>sh.
                 case sh of
                   IsList xs \<Rightarrow>
                     bind (alloc (HList [])) (\<lambda>y.
                     bind (deepcopy_each n xs ((a, y) # memo)) (\<lambda>r.
                     bind (setobj y (HList (fst r))) (\<lambda>u. ret (y, snd r))))
                 | IsDict kvs \<Rightarrow>
                     bind (alloc (HDict [])) (\<lambda>y.
                     bind (deepcopy_items n kvs ((a, y) # memo)) (\<lambda>r.
                     bind (setobj y (HDict (fst r))) (\<lambda>u. ret (y, snd r))))
                 | IsObj x \<Rightarrow>
                     bind (alloc (HObj HNone)) (\<lambda>y.
                     bind (deepcopy_st n x ((a, y) # memo)) (\<lambda>r.
                     bind (setobj y (HObj (fst r))) (\<lambda>u. ret (y, snd r))))
                 | _ \<Rightarrow> throw TypeError))
      | HTuple xs \<Rightarrow>
          bind (deepcopy_each n xs memo) (\<lambda>r. ret (HTuple (fst r), snd r))
      | _ \<Rightarrow> ret (v, memo))"
| "deepcopy_each n [] memo = ret ([], memo)"
| "deepcopy_each n (x # xs) memo =
     bind (deepcopy_st n x memo) (\<lambda>r.
     bind (deepcopy_each n xs (snd r)) (\<lambda>rs.
     ret (fst r # fst rs, snd rs)))"
| "deepcopy_items n [] memo = ret ([], memo)"
| "deepcopy_items n (kv # kvs) memo =
     bind (deepcopy_st n (snd kv) memo) (\<lambda>r.
     bind (deepcopy_items n kvs (snd r)) (\<lambda>rs.
     ret ((fst kv, fst r) # fst rs, snd rs)))"
  by pat_completeness auto
termination
  by (relation "inv_image (less_than <*lex*> less_than)
        (\<lambda>x. case x of
               Inl (n, v, memo) \<Rightarrow> (n, 0)
             | Inr (Inl (n, xs, memo)) \<Rightarrow> (n, Suc (length xs))
             | Inr (Inr (n, kvs, memo)) \<Rightarrow> (n, Suc (length kvs)))") auto

definition dict_transfer_st ::
  "nat \<Rightarrow> hval \<Rightarrow> hval \<Rightarrow> hval \<Rightarrow> hval \<Rightarrow> (hval \<times> hval list) prog" where
  "dict_transfer_st n source_dict target_dict target_name_key value_key =
     bind (deepcopy_st n target_dict []) (\<lambda>c.
     bind (reads (gen_dict_extract_st n target_name_key source_dict)) (\<lambda>extracted_gui_entries.
     bind (transfer_entries_st n target_name_key value_key extracted_gui_entries (fst c, [], []))
       (\<lambda>st. ret (fst st, fst (snd st)))))"

text \<open>The tree of values that a value stands for in a store, read to depth \<open>n\<close>.\<close>

fun tree_of :: "nat \<Rightarrow> store \<Rightarrow> hval \<Rightarrow> pyval option" where
  "tree_of 0 h v = None"
| "tree_of (Suc n) h v =
     (case shape h v of
        IsNone \<Rightarrow> Some PNone
      | IsInt i \<Rightarrow> Some (PInt i)
      | IsStr s \<Rightarrow> Some (PStr s)
      | IsTuple xs \<Rightarrow> map_option PTuple (those (map (tree_of n h) xs))
      | IsList xs \<Rightarrow> map_option PList (those (map (tree_of n h) xs))
      | IsDict kvs \<Rightarrow>
          map_option (\<lambda>ts. PDict (zip (map fst kvs) ts))
            (those (map (\<lambda>kv. tree_of n h (snd kv)) kvs))
      | IsObj x \<Rightarrow> map_option PObj (tree_of n h x)
      | NoObject \<Rightarrow> None)"

text \<open>The addresses a value or an object holds.\<close>

fun refs_val :: "hval \<Rightarrow> addr list" where
  "refs_val (HRef a) = [a]"
| "refs_val (HTuple vs) = concat (map refs_val vs)"
| "refs_val v = []"

fun refs_obj :: "hobj \<Rightarrow> addr list" where
  "refs_obj (HList vs) = concat (map refs_val vs)"
| "refs_obj (HDict kvs) = concat (map (\<lambda>kv. refs_val (snd kv)) kvs)"
| "refs_obj (HObj v) = refs_val v"

text \<open>
  \<open>closed h S\<close>: every address in \<open>S\<close> is an object of \<open>h\<close>, and every object in \<open>S\<close>
  refers to objects in \<open>S\<close> only. A closed \<open>S\<close> that holds the addresses of a value holds
  every object reachable from it.
\<close>

definition closed :: "store \<Rightarrow> addr list \<Rightarrow> bool" where
  "closed h S = list_all (\<lambda>a. a < length h \<and> list_all (\<lambda>b. b \<in> set S) (refs_obj (h ! a))) S"

text \<open>
  The frame argument. \<open>A\<close> is the set of addresses that may be written: a closed set
  around the source together with every address from the end of the initial store \<open>h0\<close>
  on. The invariant: the store has only grown, the objects of \<open>h0\<close> outside \<open>A\<close> are as
  they were, and the objects in \<open>A\<close> refer into \<open>A\<close>. \<open>valid h0 A m Q\<close>: the statement
  \<open>m\<close> keeps the invariant, whether it returns or raises, and a returned value satisfies
  \<open>Q\<close>.
\<close>

definition ok :: "addr set \<Rightarrow> hval \<Rightarrow> bool" where
  "ok A v = (set (refs_val v) \<subseteq> A)"

definition ok_obj :: "addr set \<Rightarrow> hobj \<Rightarrow> bool" where
  "ok_obj A obj = (set (refs_obj obj) \<subseteq> A)"

definition frame_inv :: "store \<Rightarrow> addr set \<Rightarrow> store \<Rightarrow> bool" where
  "frame_inv h0 A h =
     (length h0 \<le> length h \<and>
      (\<forall>a<length h0. a \<notin> A \<longrightarrow> h ! a = h0 ! a) \<and>
      (\<forall>a<length h. a \<in> A \<longrightarrow> ok_obj A (h ! a)))"

definition covers :: "store \<Rightarrow> addr set \<Rightarrow> bool" where
  "covers h0 A = (\<forall>a. length h0 \<le> a \<longrightarrow> a \<in> A)"

definition fresh :: "store \<Rightarrow> hval \<Rightarrow> bool" where
  "fresh h0 v = (\<forall>a\<in>set (refs_val v). length h0 \<le> a)"

definition valid :: "store \<Rightarrow> addr set \<Rightarrow> 'a prog \<Rightarrow> ('a \<Rightarrow> bool) \<Rightarrow> bool" where
  "valid h0 A m Q =
     (\<forall>h. frame_inv h0 A h \<longrightarrow>
          frame_inv h0 A (snd (m h)) \<and> (\<forall>x. fst (m h) = Inr x \<longrightarrow> Q x))"

text \<open>What a deep copy returns refers to objects created after \<open>h0\<close> only.\<close>

definition memo_fresh :: "store \<Rightarrow> memo \<Rightarrow> bool" where
  "memo_fresh h0 memo = (\<forall>p\<in>set memo. fresh h0 (snd p))"

definition copied :: "store \<Rightarrow> hval \<times> memo \<Rightarrow> bool" where
  "copied h0 r = (fresh h0 (fst r) \<and> memo_fresh h0 (snd r))"

definition copied_each :: "store \<Rightarrow> hval list \<times> memo \<Rightarrow> bool" where
  "copied_each h0 r = ((\<forall>v\<in>set (fst r). fresh h0 v) \<and> memo_fresh h0 (snd r))"

definition copied_items :: "store \<Rightarrow> (string \<times> hval) list \<times> memo \<Rightarrow> bool" where
  "copied_items h0 r = ((\<forall>kv\<in>set (fst r). fresh h0 (snd kv)) \<and> memo_fresh h0 (snd r))"

text \<open>
  Two stores. \<open>store_A\<close> holds scenario A: the source at address 0, the target at address
  3. \<open>store_shared\<close> holds a source (address 0) and a target (address 5) that share the
  dictionary \<^verbatim>\<open>D = {'k': 0}\<close> at address 6:
  \<^verbatim>\<open>source = {'w1': {'sim_name': ['a'], 'value': D}, 'w2': {'sim_name': ['a', 'k'], 'value': 7}}\<close>
  and \<^verbatim>\<open>target = {'a': 0, 'b': D}\<close>.
\<close>

definition store_A :: store where
  "store_A =
     [HDict [(''w1'', HRef 1)],
      HDict [(''sim_name'', HRef 2), (''value'', HInt 5)],
      HList [HStr ''a'', HStr ''b''],
      HDict [(''a'', HRef 4)],
      HDict [(''b'', HInt 0)]]"

definition store_shared :: store where
  "store_shared =
     [HDict [(''w1'', HRef 1), (''w2'', HRef 3)],
      HDict [(''sim_name'', HRef 2), (''value'', HRef 6)],
      HList [HStr ''a''],
      HDict [(''sim_name'', HRef 4), (''value'', HInt 7)],
      HList [HStr ''a'', HStr ''k''],
      HDict [(''a'', HInt 0), (''b'', HRef 6)],
      HDict [(''k'', HInt 0)]]"

text \<open>
  \<open>store_C\<close> holds scenario C (source at address 0, target at address 6).
  \<open>store_no_value\<close> holds two elements without a value, \<^verbatim>\<open>{'sim_name': ['a']}\<close> at
  address 1 and \<^verbatim>\<open>{'sim_name': [['a']]}\<close> at address 3, the dictionary of both at address
  0, and the target \<^verbatim>\<open>{'a': 0}\<close> at address 6. \<open>read_back\<close> reads the pair that a call
  returns as trees.
\<close>

definition store_C :: store where
  "store_C =
     [HDict [(''w1'', HRef 1)],
      HDict [(''sim_name'', HRef 2), (''value'', HRef 5)],
      HList [HRef 3],
      HList [HStr ''x'', HRef 4],
      HList [HInt 0, HInt 2],
      HList [HInt 10, HInt 20, HInt 30],
      HDict [(''x'', HRef 7)],
      HList []]"

definition store_no_value :: store where
  "store_no_value =
     [HDict [(''w1'', HRef 1), (''w2'', HRef 3)],
      HDict [(''sim_name'', HRef 2)],
      HList [HStr ''a''],
      HDict [(''sim_name'', HRef 4)],
      HList [HRef 5],
      HList [HStr ''a''],
      HDict [(''a'', HInt 0)]]"

definition read_back :: "nat \<Rightarrow> (herror + hval \<times> hval list) \<times> store \<Rightarrow> herror + pyval option \<times> pyval option list" where
  "read_back n r =
     (case r of
        (Inl e, h) \<Rightarrow> Inl e
      | (Inr (c, names), h) \<Rightarrow> Inr (tree_of n h c, map (tree_of n h) names))"

section \<open>Specification-side notions\<close>

text \<open>Some dictionary inside \<open>var\<close>, nested at any depth through dictionaries, lists
  and tuples, has the key \<open>key\<close>.\<close>

fun mentions_key :: "pyval \<Rightarrow> pyval \<Rightarrow> bool" where
  "mentions_key key (PDict kvs) =
     list_ex (\<lambda>kv. PStr (fst kv) = key \<or> mentions_key key (snd kv)) kvs"
| "mentions_key key (PList xs) = list_ex (mentions_key key) xs"
| "mentions_key key (PTuple xs) = list_ex (mentions_key key) xs"
| "mentions_key key v = False"

text \<open>
  \<open>pruned t t'\<close>: \<open>t'\<close> is \<open>t\<close> with entries of dictionaries deleted and nothing else
  changed; every list and every tuple keeps its length and its elements in their places.
\<close>

inductive pruned :: "pyval \<Rightarrow> pyval \<Rightarrow> bool"
  and pruned_items :: "(string \<times> pyval) list \<Rightarrow> (string \<times> pyval) list \<Rightarrow> bool" where
  unchanged: "pruned v v"
| in_list: "list_all2 pruned xs ys \<Longrightarrow> pruned (PList xs) (PList ys)"
| in_tuple: "list_all2 pruned xs ys \<Longrightarrow> pruned (PTuple xs) (PTuple ys)"
| in_dict: "pruned_items kvs kws \<Longrightarrow> pruned (PDict kvs) (PDict kws)"
| no_items: "pruned_items [] []"
| deleted: "pruned_items kvs kws \<Longrightarrow> pruned_items ((k, v) # kvs) kws"
| kept: "pruned v w \<Longrightarrow> pruned_items kvs kws \<Longrightarrow> pruned_items ((k, v) # kvs) ((k, w) # kws)"

code_pred pruned .

text \<open>
  The specification's view of the search: every dictionary inside \<open>t\<close>, at any depth,
  once per occurrence, descending into the values of dictionaries and the elements of
  sequences (lists and tuples).
\<close>

fun mappings :: "pyval \<Rightarrow> pyval list" where
  "mappings (PDict kvs) = PDict kvs # concat (map (\<lambda>kv. mappings (snd kv)) kvs)"
| "mappings (PList xs) = concat (map mappings xs)"
| "mappings (PTuple xs) = concat (map mappings xs)"
| "mappings v = []"

text \<open>\<^verbatim>\<open>key in d\<close> holds.\<close>

definition has_key :: "pyval \<Rightarrow> pyval \<Rightarrow> bool" where
  "has_key key d = (py_contains key d = Inr True)"

text \<open>No dictionary, at any depth, holds a tuple as a value.\<close>

fun no_tuple_values :: "pyval \<Rightarrow> bool" where
  "no_tuple_values (PDict kvs) =
     list_all (\<lambda>kv. \<not> is_tuple (snd kv) \<and> no_tuple_values (snd kv)) kvs"
| "no_tuple_values (PList xs) = list_all no_tuple_values xs"
| "no_tuple_values (PTuple xs) = list_all no_tuple_values xs"
| "no_tuple_values v = True"






section \<open>Properties of the normalizer\<close>

text \<open>
  Claim C9. For a value \<open>v\<close> that is neither a list nor a tuple and a positive length
  \<open>n\<close>, \<^verbatim>\<open>ensure_list(v, n)\<close> is a list of length \<open>n\<close> whose elements all equal \<open>v\<close>;
  a value \<open>s\<close> that is a list or a tuple is returned unchanged, whatever the length
  argument.
\<close>

theorem ensure_list_spec:
  "(\<not> is_list v \<and> \<not> is_tuple v \<and> 0 < n \<longrightarrow>
      (\<exists>xs. ensure_list v n = PList xs \<and> int (length xs) = n \<and> (\<forall>x\<in>set xs. x = v))) \<and>
   (is_list s \<or> is_tuple s \<longrightarrow> ensure_list s m = s)"
  by (simp add: ensure_list_def)

theorem ensure_list_spec_witness:
  "\<not> is_list (PInt 7) \<and> \<not> is_tuple (PInt 7) \<and> (0::int) < 3 \<and>
   (\<exists>xs. ensure_list (PInt 7) 3 = PList xs \<and> int (length xs) = 3 \<and> (\<forall>x\<in>set xs. x = PInt 7)) \<and>
   is_list (PList [PInt 1]) \<and> ensure_list (PList [PInt 1]) 1 = PList [PInt 1]"
  using ensure_list_spec [of "PInt 7" 3 "PList [PInt 1]" 1] by simp

section \<open>Scenarios of the orchestrator\<close>

lemmas transfer_defs =
  dict_transfer_def dict_transfer_out_def deepcopy_def transfer_entry_def transfer_path_def
  ensure_list_def set_dict_entry_def assign_entry_def py_index_def

text \<open>
  Claim C5 (scenario A). With \<^verbatim>\<open>source = {'w1': {'sim_name': ['a','b'], 'value': 5}}\<close>
  and \<^verbatim>\<open>target = {'a': {'b': 0}}\<close>, \<^verbatim>\<open>dict_transfer\<close> returns
  \<^verbatim>\<open>({'a': {'b': 5}}, [['a','b']])\<close>.
\<close>

theorem dict_transfer_scenario_A:
  "dict_transfer
     (PDict [(''w1'', PDict [(''sim_name'', PList [PStr ''a'', PStr ''b'']), (''value'', PInt 5)])])
     (PDict [(''a'', PDict [(''b'', PInt 0)])])
     (PStr ''sim_name'') (PStr ''value'')
   = Inr (PDict [(''a'', PDict [(''b'', PInt 5)])], [PList [PStr ''a'', PStr ''b'']])"
  by (simp add: transfer_defs)

text \<open>
  Claim C2 fails on the code. With \<^verbatim>\<open>source = {'w1': {'sim_name': ['a']}}\<close> (an element
  without a value) and \<^verbatim>\<open>target = {'a': 0}\<close>, the path \<^verbatim>\<open>['a']\<close> is in the returned
  record although nothing was written: the target copy comes back as it was.
\<close>

theorem dict_transfer_records_unwritten_path:
  "dict_transfer
     (PDict [(''w1'', PDict [(''sim_name'', PList [PStr ''a''])])])
     (PDict [(''a'', PInt 0)])
     (PStr ''sim_name'') (PStr ''value'')
   = Inr (PDict [(''a'', PInt 0)], [PList [PStr ''a'']])"
  by (simp add: transfer_defs)

section \<open>Properties of the path accessor\<close>

lemma py_index_less: "py_index n i = Some j \<Longrightarrow> j < n"
  by (auto simp: py_index_def Let_def split: if_splits)

lemma py_put_same: "py_getitem t k = Inr s \<Longrightarrow> py_put t k s = t"
  by (cases t; cases k)
     (auto simp: AList.update_triv split: if_splits option.splits)

lemma py_getitem_put:
  "py_getitem t k = Inr s \<Longrightarrow> \<not> (\<exists>c. t = PStr c) \<Longrightarrow> py_getitem (py_put t k s') k = Inr s'"
  by (cases t; cases k)
     (auto simp: AList.update_conv' py_index_less split: if_splits option.splits)

lemma is_dict_put: "is_dict t \<Longrightarrow> is_dict (py_put t k s)"
  by (cases t; cases k) auto

lemma write_through_fail:
  "descend ks t = Inr s \<Longrightarrow> f s = Inl e \<Longrightarrow> write_through ks f t = Inl e"
  by (induction ks arbitrary: t) (auto split: sum.splits)

lemma write_through_same:
  "descend ks t = Inr s \<Longrightarrow> f s = Inr (s, out) \<Longrightarrow> write_through ks f t = Inr (t, out)"
  by (induction ks arbitrary: t) (auto simp: py_put_same split: sum.splits)

lemma getitem_str: "py_getitem (PStr c) k = Inr s \<Longrightarrow> \<exists>d. s = PStr d"
  by (cases k) (auto split: option.splits)

lemma descend_str: "descend ks (PStr c) = Inr s \<Longrightarrow> \<exists>d. s = PStr d"
proof (induction ks arbitrary: c)
  case Nil
  then show ?case by auto
next
  case (Cons k ks)
  from Cons.prems obtain s' where "py_getitem (PStr c) k = Inr s'" "descend ks s' = Inr s"
    by (auto split: sum.splits)
  moreover from this obtain d where "s' = PStr d" using getitem_str by blast
  ultimately show ?case using Cons.IH by blast
qed

lemma write_through_reach:
  "descend ks t = Inr (PDict kvs) \<Longrightarrow> f (PDict kvs) = Inr (s', out) \<Longrightarrow>
   \<exists>t'. write_through ks f t = Inr (t', out) \<and> descend ks t' = Inr s' \<and> (is_dict t \<longrightarrow> ks \<noteq> [] \<longrightarrow> is_dict t')"
proof (induction ks arbitrary: t)
  case Nil
  then show ?case by simp
next
  case (Cons k ks)
  from Cons.prems(1) obtain s where s: "py_getitem t k = Inr s" and d: "descend ks s = Inr (PDict kvs)"
    by (auto split: sum.splits)
  from Cons.IH [OF d Cons.prems(2)] obtain u where
    u: "write_through ks f s = Inr (u, out)" "descend ks u = Inr s'" by blast
  have nstr: "\<not> (\<exists>c. t = PStr c)"
  proof
    assume "\<exists>c. t = PStr c"
    then obtain c where "t = PStr c" ..
    with s obtain d' where "s = PStr d'" using getitem_str by blast
    with d show False using descend_str by blast
  qed
  show ?case using s u py_getitem_put [OF s nstr, of u]
    by (auto simp: is_dict_put)
qed

text \<open>
  Claim C3. When the keys before the last resolve to a dictionary that lacks the last
  key, \<^verbatim>\<open>set_dict_entry\<close> in strict mode raises the \<^verbatim>\<open>NameError\<close> naming the path; in
  any other mode it raises nothing, prints the line naming the path and returns the
  dictionary exactly as it was, so no key is created.
\<close>

theorem set_dict_entry_absent_key:
  assumes "is_dict target_dict"
    and "key_seq key_list = Inr ks" and "ks \<noteq> []"
    and "descend (butlast ks) target_dict = Inr (PDict kvs)"
    and "py_contains (last ks) (PDict kvs) = Inr False"
  shows "set_dict_entry v key_list target_dict ''strict'' = Inl (NameError key_list) \<and>
         (mode \<noteq> ''strict'' \<longrightarrow>
            set_dict_entry v key_list target_dict mode = Inr (target_dict, [KeyNotFound key_list]))"
proof -
  let ?f = "\<lambda>m sub_dict. if ks = [] then Inl IndexError
                           else assign_entry v key_list (last ks) m sub_dict"
  have strict: "?f ''strict'' (PDict kvs) = Inl (NameError key_list)"
    using assms(3,5) by (simp add: assign_entry_def)
  have moderate: "mode \<noteq> ''strict'' \<Longrightarrow> ?f mode (PDict kvs) = Inr (PDict kvs, [KeyNotFound key_list])"
    using assms(3,5) by (simp add: assign_entry_def)
  show ?thesis
    using assms(1,2)
      write_through_fail [where f = "?f ''strict''", OF assms(4) strict]
      write_through_same [where f = "?f mode", OF assms(4) moderate]
    by (simp add: set_dict_entry_def)
qed

theorem set_dict_entry_absent_key_witness:
  "set_dict_entry (PInt 1) (PList [PStr ''a'', PStr ''c'']) (PDict [(''a'', PDict [(''b'', PInt 0)])]) ''strict''
     = Inl (NameError (PList [PStr ''a'', PStr ''c''])) \<and>
   set_dict_entry (PInt 1) (PList [PStr ''a'', PStr ''c'']) (PDict [(''a'', PDict [(''b'', PInt 0)])]) ''moderate''
     = Inr (PDict [(''a'', PDict [(''b'', PInt 0)])], [KeyNotFound (PList [PStr ''a'', PStr ''c''])])"
  using set_dict_entry_absent_key [of "PDict [(''a'', PDict [(''b'', PInt 0)])]"
      "PList [PStr ''a'', PStr ''c'']" "[PStr ''a'', PStr ''c'']" "[(''b'', PInt 0)]" "PInt 1" "''moderate''"]
  by simp

text \<open>
  Claim C8, amended. When the keys before the last resolve to a dictionary that has the
  last key, \<^verbatim>\<open>set_dict_entry\<close> followed by \<^verbatim>\<open>get_dict_entry\<close> on the same path returns
  the value that was stored: the \<^verbatim>\<open>value\<close> attribute of the given value when it has one,
  the given value itself otherwise.
\<close>

theorem set_then_get:
  assumes "is_dict target_dict"
    and "key_seq key_list = Inr ks" and "ks \<noteq> []"
    and "descend (butlast ks) target_dict = Inr (PDict kvs)"
    and "py_contains (last ks) (PDict kvs) = Inr True"
  shows "\<exists>t'. set_dict_entry v key_list target_dict mode = Inr (t', []) \<and>
              get_dict_entry key_list t' = Inr (pure_value v)"
proof -
  let ?f = "\<lambda>sub_dict. if ks = [] then Inl IndexError
                           else assign_entry v key_list (last ks) mode sub_dict"
  from assms(5) obtain s where s: "last ks = PStr s" "s \<in> fst ` set kvs"
    by (cases "last ks") (auto split: if_splits)
  have f: "?f (PDict kvs) = Inr (PDict (AList.update s (pure_value v) kvs), [])"
    using assms(3,5) s by (simp add: assign_entry_def)
  from write_through_reach [where f = ?f, OF assms(4) f] obtain t' where
    t': "write_through (butlast ks) ?f target_dict = Inr (t', [])"
        "descend (butlast ks) t' = Inr (PDict (AList.update s (pure_value v) kvs))"
        "is_dict target_dict \<longrightarrow> butlast ks \<noteq> [] \<longrightarrow> is_dict t'"
    by blast
  have d: "is_dict t'"
  proof (cases "butlast ks = []")
    case True
    with assms(4) have "target_dict = PDict kvs" by simp
    with True t'(1) f show ?thesis by auto
  next
    case False
    with t'(3) assms(1) show ?thesis by simp
  qed
  have "get_dict_entry key_list t' = Inr (pure_value v)"
    using d assms(2,3) t'(2) s by (simp add: get_dict_entry_def AList.update_conv')
  with t'(1) assms(1,2) show ?thesis by (simp add: set_dict_entry_def)
qed

theorem set_then_get_witness:
  "\<exists>t'. set_dict_entry (PObj (PInt 5)) (PList [PStr ''a'', PStr ''b'']) (PDict [(''a'', PDict [(''b'', PInt 0)])]) ''moderate'' = Inr (t', []) \<and>
      get_dict_entry (PList [PStr ''a'', PStr ''b'']) t' = Inr (PInt 5)"
  using set_then_get [of "PDict [(''a'', PDict [(''b'', PInt 0)])]"
      "PList [PStr ''a'', PStr ''b'']" "[PStr ''a'', PStr ''b'']" "[(''b'', PInt 0)]" "PObj (PInt 5)" "''moderate''"]
  by simp

text \<open>
  Claim C8 as stated fails for a value that carries a \<^verbatim>\<open>value\<close> attribute: the entry
  holds the unwrapped \<^verbatim>\<open>5\<close>, not the object that was passed.
\<close>

theorem set_then_get_wrapped_counterexample:
  "set_dict_entry (PObj (PInt 5)) (PList [PStr ''a'']) (PDict [(''a'', PInt 0)]) ''moderate''
     = Inr (PDict [(''a'', PInt 5)], []) \<and>
   get_dict_entry (PList [PStr ''a'']) (PDict [(''a'', PInt 5)]) \<noteq> Inr (PObj (PInt 5))"
  by (simp add: set_dict_entry_def get_dict_entry_def assign_entry_def)

section \<open>Properties of the tree search\<close>

lemma no_mention: "\<not> mentions_key key (remove_key key var)"
  by (induction var) (auto simp: list_ex_iff)

lemma pruned_items_remove:
  "(\<And>kv. kv \<in> set kvs \<Longrightarrow> pruned (snd kv) (f (snd kv))) \<Longrightarrow>
   pruned_items kvs (map (\<lambda>kv. (fst kv, f (snd kv))) (filter P kvs))"
proof (induction kvs)
  case Nil
  then show ?case by (simp add: no_items)
next
  case (Cons kv kvs)
  obtain k v where kv: "kv = (k, v)" by (cases kv)
  have tl: "pruned_items kvs (map (\<lambda>kv. (fst kv, f (snd kv))) (filter P kvs))"
    using Cons by simp
  have hd: "pruned v (f v)" using Cons.prems [of kv] kv by simp
  show ?case
  proof (cases "P kv")
    case True
    then show ?thesis using kv kept [OF hd tl] by simp
  next
    case False
    then show ?thesis using kv deleted [OF tl] by simp
  qed
qed

lemma pruned_remove: "pruned var (remove_key key var)"
proof (induction var)
  case (PList xs)
  then show ?case by (auto intro!: in_list simp: list_all2_conv_all_nth)
next
  case (PTuple xs)
  then show ?case by (auto intro!: in_tuple simp: list_all2_conv_all_nth)
next
  case (PDict kvs)
  have "pruned_items kvs (map (\<lambda>kv. (fst kv, remove_key key (snd kv))) (filter (\<lambda>kv. PStr (fst kv) \<noteq> key) kvs))"
    by (rule pruned_items_remove) (use PDict in \<open>auto simp: snds.simps\<close>)
  then show ?case by (auto intro: in_dict)
qed (auto intro: unchanged)

text \<open>
  Claim C7. After \<^verbatim>\<open>remove_key(key, var)\<close> no dictionary inside \<open>var\<close>, at any depth and
  also inside the elements of lists and tuples, has the key; and \<open>var\<close> has changed only
  by entries deleted from dictionaries, every list and tuple keeping its length and its
  elements in place.
\<close>

theorem remove_key_spec:
  "\<not> mentions_key key (remove_key key var) \<and> pruned var (remove_key key var)"
  by (simp add: no_mention pruned_remove)

text \<open>
  Where no dictionary holds a tuple as a value (and keys are distinct, as in every Python
  dictionary), the search does yield exactly the dictionaries that contain the key, once
  per occurrence; the order is that of the traversal, in which a dictionary is yielded
  when the loop over its items reaches the key.
\<close>

lemma inner_search:
  "\<not> is_tuple v \<Longrightarrow>
   (case v of PDict kws \<Rightarrow> gen_dict_extract key v
            | PList ds \<Rightarrow> concat (map (gen_dict_extract key) ds)
            | _ \<Rightarrow> []) = gen_dict_extract key v"
  by (cases v) simp_all

lemma mset_concat_cong:
  "\<forall>x\<in>set xs. mset (f x) = mset (g x) \<Longrightarrow> mset (concat (map f xs)) = mset (concat (map g xs))"
  by (induction xs) simp_all

lemma own_yield:
  "distinct (map fst kvs) \<Longrightarrow>
   mset (concat (map (\<lambda>kv. (if PStr (fst kv) = key then [w] else []) @ f kv) kvs)) =
   (if has_key key (PDict kvs) then {#w#} else {#}) + mset (concat (map f kvs))"
proof (induction kvs)
  case Nil
  then show ?case by (cases key) (simp_all add: has_key_def)
next
  case (Cons kv kvs)
  then show ?case
    by (cases key) (auto simp: has_key_def image_iff)
qed

lemma gen_dict_extract_without_tuple_values:
  "wf t \<Longrightarrow> no_tuple_values t \<Longrightarrow>
   mset (gen_dict_extract key t) = mset (filter (has_key key) (mappings t))"
proof (induction t)
  case (PList xs)
  then show ?case
    by (auto simp: filter_concat comp_def list_all_iff intro!: mset_concat_cong)
next
  case (PTuple xs)
  then show ?case
    by (auto simp: filter_concat comp_def list_all_iff intro!: mset_concat_cong)
next
  case (PDict kvs)
  have d: "distinct (map fst kvs)" using PDict.prems(1) by simp
  have vals: "\<forall>kv\<in>set kvs. mset (gen_dict_extract key (snd kv)) =
                 mset (filter (has_key key) (mappings (snd kv)))"
  proof
    fix kv assume kv: "kv \<in> set kvs"
    have "snd kv \<in> Basic_BNFs.snds kv" by (cases kv) (simp add: snds.simps)
    with kv PDict.IH [of kv "snd kv"] PDict.prems show
      "mset (gen_dict_extract key (snd kv)) = mset (filter (has_key key) (mappings (snd kv)))"
      by (auto simp: list_all_iff)
  qed
  have "gen_dict_extract key (PDict kvs) =
        concat (map (\<lambda>kv. (if PStr (fst kv) = key then [PDict kvs] else []) @
                          gen_dict_extract key (snd kv)) kvs)"
  proof -
    have "map (\<lambda>kv. (if PStr (fst kv) = key then [PDict kvs] else []) @
                (case snd kv of
                   PDict kws \<Rightarrow> gen_dict_extract key (snd kv)
                 | PList ds \<Rightarrow> concat (map (gen_dict_extract key) ds)
                 | _ \<Rightarrow> [])) kvs =
          map (\<lambda>kv. (if PStr (fst kv) = key then [PDict kvs] else []) @
                gen_dict_extract key (snd kv)) kvs"
      by (rule map_cong [OF refl]) (use PDict.prems(2) in \<open>simp add: list_all_iff inner_search\<close>)
    then show ?thesis unfolding gen_dict_extract.simps by (rule arg_cong)
  qed
  then have "mset (gen_dict_extract key (PDict kvs)) =
     (if has_key key (PDict kvs) then {#PDict kvs#} else {#}) +
     mset (concat (map (\<lambda>kv. gen_dict_extract key (snd kv)) kvs))"
    using own_yield [OF d, of key "PDict kvs" "\<lambda>kv. gen_dict_extract key (snd kv)"]
    by (simp only:)
  also have "mset (concat (map (\<lambda>kv. gen_dict_extract key (snd kv)) kvs)) =
     mset (concat (map (\<lambda>kv. filter (has_key key) (mappings (snd kv))) kvs))"
    by (rule mset_concat_cong) (rule vals)
  finally show ?case by (simp add: filter_concat comp_def)
qed (simp_all add: has_key_def)

text \<open>
  Claim C4 fails on the code. A dictionary that is an element of a tuple held as a
  dictionary value contains the key and is not yielded: line 84 tests
  \<^verbatim>\<open>isinstance(v, list)\<close> where line 88 and \<^verbatim>\<open>remove_key\<close> test
  \<^verbatim>\<open>isinstance(var, (list, tuple))\<close>. The same tuple inside a list is searched.
\<close>

theorem gen_dict_extract_skips_tuple_value:
  "gen_dict_extract (PStr ''k'') (PDict [(''a'', PTuple [PDict [(''k'', PInt 1)]])]) = [] \<and>
   filter (has_key (PStr ''k'')) (mappings (PDict [(''a'', PTuple [PDict [(''k'', PInt 1)]])]))
     = [PDict [(''k'', PInt 1)]] \<and>
   gen_dict_extract (PStr ''k'') (PDict [(''a'', PList [PTuple [PDict [(''k'', PInt 1)]]])])
     = [PDict [(''k'', PInt 1)]]"
  by (simp add: has_key_def)

section \<open>Properties of the orchestrator\<close>










text \<open>
  Claim C10. Let a source element lack the value key. If the first of its declared names
  is a list (the multi-path case), processing it raises \<^verbatim>\<open>KeyError\<close>, which ends the whole
  loop over the elements; otherwise (the single-path case) its path is appended to the
  record, nothing is written or printed, and the loop goes on with the next element.
\<close>

theorem missing_value_key:
  assumes "is_dict gui_entry"
    and "py_getitem gui_entry target_name_key = Inr names"
    and "py_getitem (ensure_list names 1) (PInt 0) = Inr first"
    and "py_contains value_key gui_entry = Inr False"
  shows "(is_list first \<longrightarrow>
            transfer_entries target_name_key value_key (gui_entry # rest) st = Inl KeyError) \<and>
         (\<not> is_list first \<longrightarrow>
            transfer_entries target_name_key value_key (gui_entry # rest) (sub_dict, name_lists, out) =
            transfer_entries target_name_key value_key rest
              (sub_dict, name_lists @ [ensure_list names 1], out))"
proof -
  from assms(1,4) have "py_getitem gui_entry value_key = Inl KeyError"
    by (cases gui_entry; cases value_key)
       (auto split: if_splits simp: map_of_eq_None_iff [THEN iffD2])
  then show ?thesis using assms(2,3,4)
    by (cases st) (simp add: transfer_entry_def Let_def)
qed

theorem missing_value_key_witness:
  "dict_transfer (PDict [(''w1'', PDict [(''sim_name'', PList [PList [PStr ''x'']])])])
     (PDict [(''x'', PInt 0)]) (PStr ''sim_name'') (PStr ''value'') = Inl KeyError \<and>
   dict_transfer (PDict [(''w1'', PDict [(''sim_name'', PList [PStr ''x''])])])
     (PDict [(''x'', PInt 0)]) (PStr ''sim_name'') (PStr ''value'')
     = Inr (PDict [(''x'', PInt 0)], [PList [PStr ''x'']])"
  using
    missing_value_key [of "PDict [(''sim_name'', PList [PList [PStr ''x'']])]" "PStr ''sim_name''"
      "PList [PList [PStr ''x'']]" "PList [PStr ''x'']" "PStr ''value''" "[]"
      "(PDict [(''x'', PInt 0)], [], [])"]
    missing_value_key [of "PDict [(''sim_name'', PList [PStr ''x''])]" "PStr ''sim_name''"
      "PList [PStr ''x'']" "PStr ''x''" "PStr ''value''" "[]" _ "PDict [(''x'', PInt 0)]" "[]" "[]"]
  by (simp add: dict_transfer_def dict_transfer_out_def deepcopy_def ensure_list_def py_index_def)

section \<open>The frame of the orchestrator\<close>

lemma valid_ret: "Q x \<Longrightarrow> valid h0 A (ret x) Q"
  by (simp add: valid_def ret_def)

lemma valid_throw: "valid h0 A (throw e) Q"
  by (simp add: valid_def throw_def)

lemma valid_bind:
  assumes "valid h0 A m Q" and "\<And>x. Q x \<Longrightarrow> valid h0 A (f x) R"
  shows "valid h0 A (bind m f) R"
  unfolding valid_def
proof (intro allI impI)
  fix h assume i: "frame_inv h0 A h"
  obtain r h1 where m: "m h = (r, h1)" by (cases "m h")
  from assms(1) i m have i1: "frame_inv h0 A h1" and q: "\<And>x. r = Inr x \<Longrightarrow> Q x"
    by (auto simp: valid_def)
  show "frame_inv h0 A (snd (bind m f h)) \<and> (\<forall>x. fst (bind m f h) = Inr x \<longrightarrow> R x)"
  proof (cases r)
    case (Inl e)
    with m i1 show ?thesis by (simp add: bind_def)
  next
    case (Inr x)
    with q have "Q x" by simp
    from assms(2) [OF this] i1 have "frame_inv h0 A (snd (f x h1)) \<and> (\<forall>y. fst (f x h1) = Inr y \<longrightarrow> R y)"
      by (simp add: valid_def)
    with m Inr show ?thesis by (simp add: bind_def)
  qed
qed

lemma valid_reads:
  assumes "\<And>h x. frame_inv h0 A h \<Longrightarrow> f h = Inr x \<Longrightarrow> Q x"
  shows "valid h0 A (reads f) Q"
  using assms by (auto simp: valid_def reads_def)

lemma valid_weaken: "valid h0 A m Q \<Longrightarrow> (\<And>x. Q x \<Longrightarrow> R x) \<Longrightarrow> valid h0 A m R"
  by (auto simp: valid_def)

lemma fresh_ok: "covers h0 A \<Longrightarrow> fresh h0 v \<Longrightarrow> ok A v"
  by (auto simp: covers_def fresh_def ok_def)

lemma valid_alloc:
  assumes "covers h0 A" and "ok_obj A obj"
  shows "valid h0 A (alloc obj) (\<lambda>y. fresh h0 y \<and> ok A y)"
  unfolding valid_def
proof (intro allI impI)
  fix h assume i: "frame_inv h0 A h"
  have "length h \<in> A" using i assms(1) by (simp add: frame_inv_def covers_def)
  then have "frame_inv h0 A (h @ [obj])"
    using i assms(2) by (auto simp: frame_inv_def nth_append less_Suc_eq)
  moreover have "fresh h0 (HRef (length h))" using i by (simp add: fresh_def frame_inv_def)
  ultimately show "frame_inv h0 A (snd (alloc obj h)) \<and>
      (\<forall>x. fst (alloc obj h) = Inr x \<longrightarrow> fresh h0 x \<and> ok A x)"
    using assms(1) by (auto simp: alloc_def dest: fresh_ok)
qed

lemma valid_setobj:
  assumes "ok A r" and "ok_obj A obj"
  shows "valid h0 A (setobj r obj) (\<lambda>u. True)"
  unfolding valid_def
proof (intro allI impI)
  fix h assume i: "frame_inv h0 A h"
  show "frame_inv h0 A (snd (setobj r obj h)) \<and> (\<forall>x. fst (setobj r obj h) = Inr x \<longrightarrow> True)"
  proof (cases r)
    case (HRef a)
    with assms(1) have a: "a \<in> A" by (simp add: ok_def)
    have "a < length h \<Longrightarrow> frame_inv h0 A (h[a := obj])"
      using i a assms(2) by (auto simp: frame_inv_def nth_list_update)
    with i HRef show ?thesis by (simp add: setobj_def)
  qed (use i in \<open>simp_all add: setobj_def\<close>)
qed

lemma ok_scalar [simp]: "ok A HNone" "ok A (HInt i)" "ok A (HStr s)"
  by (simp_all add: ok_def)

lemma ok_tuple: "ok A (HTuple vs) \<longleftrightarrow> (\<forall>v\<in>set vs. ok A v)"
  by (auto simp: ok_def)

lemma ok_list_obj: "ok_obj A (HList vs) \<longleftrightarrow> (\<forall>v\<in>set vs. ok A v)"
  by (auto simp: ok_def ok_obj_def)

lemma ok_dict_obj: "ok_obj A (HDict kvs) \<longleftrightarrow> (\<forall>kv\<in>set kvs. ok A (snd kv))"
  by (auto simp: ok_def ok_obj_def)

lemma ok_obj_obj: "ok_obj A (HObj v) \<longleftrightarrow> ok A v"
  by (auto simp: ok_def ok_obj_def)

lemma shape_ok:
  assumes "frame_inv h0 A h" and "ok A v"
  shows "shape h v = IsList xs \<Longrightarrow> \<forall>x\<in>set xs. ok A x"
    and "shape h v = IsTuple xs \<Longrightarrow> \<forall>x\<in>set xs. ok A x"
    and "shape h v = IsDict kvs \<Longrightarrow> \<forall>kv\<in>set kvs. ok A (snd kv)"
    and "shape h v = IsObj x \<Longrightarrow> ok A x"
proof -
  have obj: "ok_obj A (h ! a)" if "v = HRef a" "a < length h" for a
    using assms that by (simp add: frame_inv_def ok_def)
  show "shape h v = IsList xs \<Longrightarrow> \<forall>x\<in>set xs. ok A x"
    using obj by (cases v) (auto simp: shape_def ok_list_obj split: if_splits hobj.splits)
  show "shape h v = IsTuple xs \<Longrightarrow> \<forall>x\<in>set xs. ok A x"
    using assms(2) by (cases v) (auto simp: shape_def ok_tuple split: if_splits hobj.splits)
  show "shape h v = IsDict kvs \<Longrightarrow> \<forall>kv\<in>set kvs. ok A (snd kv)"
    using obj by (cases v) (auto simp: shape_def ok_dict_obj split: if_splits hobj.splits)
  show "shape h v = IsObj x \<Longrightarrow> ok A x"
    using obj by (cases v) (auto simp: shape_def ok_obj_obj split: if_splits hobj.splits)
qed

lemma index_ok: "\<forall>v\<in>set xs. ok A v \<Longrightarrow> index_st xs k = Inr v \<Longrightarrow> ok A v"
  by (cases k) (auto simp: index_st_def py_index_def Let_def split: option.splits if_splits)

lemma lookup_ok: "\<forall>kv\<in>set kvs. ok A (snd kv) \<Longrightarrow> lookup_st h kvs k = Inr v \<Longrightarrow> ok A v"
  by (cases k) (auto simp: lookup_st_def split: if_splits option.splits dest!: map_of_SomeD)

lemma getitem_ok:
  assumes "frame_inv h0 A h" and "ok A obj" and "getitem_st obj k h = Inr v"
  shows "ok A v"
proof (cases "shape h obj")
  case (IsStr s)
  have "\<forall>v\<in>set (map (\<lambda>c. HStr [c]) s). ok A v" by simp
  with assms(3) IsStr show ?thesis
    by (auto simp: getitem_st_def simp del: set_map intro: index_ok)
next
  case (IsTuple xs)
  with assms(3) shape_ok(2) [OF assms(1,2) IsTuple] show ?thesis
    by (auto simp: getitem_st_def intro: index_ok)
next
  case (IsList xs)
  with assms(3) shape_ok(1) [OF assms(1,2) IsList] show ?thesis
    by (auto simp: getitem_st_def intro: index_ok)
next
  case (IsDict kvs)
  with assms(3) shape_ok(3) [OF assms(1,2) IsDict] show ?thesis
    by (auto simp: getitem_st_def intro: lookup_ok)
qed (use assms(3) in \<open>simp_all add: getitem_st_def\<close>)

lemma pure_value_ok:
  "frame_inv h0 A h \<Longrightarrow> ok A v \<Longrightarrow> pure_value_st v h = Inr x \<Longrightarrow> ok A x"
  by (cases "shape h v") (auto simp: pure_value_st_def dest: shape_ok(4))

lemma elements_ok:
  "frame_inv h0 A h \<Longrightarrow> ok A v \<Longrightarrow> elements_st v h = Inr xs \<Longrightarrow> \<forall>x\<in>set xs. ok A x"
  by (cases "shape h v") (auto simp: elements_st_def dest: shape_ok(1,2))

lemma descend_ok:
  "frame_inv h0 A h \<Longrightarrow> ok A s \<Longrightarrow> descend_st ks s h = Inr v \<Longrightarrow> ok A v"
  by (induction ks arbitrary: s) (auto split: sum.splits dest: getitem_ok)

lemma value_at_ok:
  "frame_inv h0 A h \<Longrightarrow> ok A g \<Longrightarrow> value_at g j h = Inr v \<Longrightarrow> ok A v"
  by (auto simp: value_at_def split: sum.splits if_splits dest: getitem_ok)

lemma fan_out_ok:
  "frame_inv h0 A h \<Longrightarrow> ok A g \<Longrightarrow> fan_out_st g js h = Inr vs \<Longrightarrow> \<forall>v\<in>set vs. ok A v"
proof (induction js arbitrary: vs)
  case Nil
  then show ?case by simp
next
  case (Cons j js)
  from Cons.prems(3) obtain v pv rest where
    v: "value_at g j h = Inr v"
    and pv: "pure_value_st v h = Inr pv" and rest: "fan_out_st g js h = Inr rest"
    and vs: "vs = pv # rest"
    by (auto split: sum.splits)
  from v Cons.prems(1,2) have "ok A v" by (auto dest: value_at_ok)
  with pv Cons.prems(1) have "ok A pv" by (auto dest: pure_value_ok)
  with Cons.IH [OF Cons.prems(1,2) rest] vs show ?case by simp
qed

lemma update_values: "kv \<in> set (AList.update s v kvs) \<Longrightarrow> snd kv = v \<or> kv \<in> set kvs"
  by (induction kvs) (auto split: if_splits)

lemma valid_setitem:
  assumes "ok A obj" and "ok A v"
  shows "valid h0 A (setitem_st obj k v) (\<lambda>u. True)"
  unfolding valid_def
proof (intro allI impI)
  fix h assume i: "frame_inv h0 A h"
  have keep: "frame_inv h0 A (snd (Inl e :: herror + unit, h)) \<and>
              (\<forall>x. fst (Inl e :: herror + unit, h) = Inr x \<longrightarrow> True)" for e
    using i by simp
  have put: "frame_inv h0 A (snd (setobj obj ob h)) \<and> (\<forall>x. fst (setobj obj ob h) = Inr x \<longrightarrow> True)"
    if "ok_obj A ob" for ob
    using valid_setobj [OF assms(1) that, of h0] i by (simp add: valid_def)
  show "frame_inv h0 A (snd (setitem_st obj k v h)) \<and> (\<forall>x. fst (setitem_st obj k v h) = Inr x \<longrightarrow> True)"
  proof (cases "shape h obj")
    case (IsList xs)
    from shape_ok(1) [OF i assms(1) IsList] assms(2)
    have "ok_obj A (HList (xs[j := v]))" for j
      by (auto simp: ok_list_obj dest: set_update_subset_insert [THEN subsetD])
    with IsList i put show ?thesis
      by (cases k) (auto simp: setitem_st_def split: option.splits)
  next
    case (IsDict kvs)
    from shape_ok(3) [OF i assms(1) IsDict] assms(2)
    have "ok_obj A (HDict (AList.update s v kvs))" for s
      by (auto simp: ok_dict_obj dest!: update_values)
    with IsDict i put show ?thesis
      by (cases k) (auto simp: setitem_st_def)
  qed (use i in \<open>simp_all add: setitem_st_def\<close>)
qed

lemma valid_if:
  "(c \<Longrightarrow> valid h0 A m Q) \<Longrightarrow> (\<not> c \<Longrightarrow> valid h0 A m' Q) \<Longrightarrow> valid h0 A (if c then m else m') Q"
  by simp

lemma valid_any: "valid h0 A (reads f) (\<lambda>x. True)"
  by (rule valid_reads) simp

lemma valid_getitem: "ok A obj \<Longrightarrow> valid h0 A (reads (getitem_st obj k)) (ok A)"
  by (rule valid_reads) (rule getitem_ok)

lemma valid_descend: "ok A s \<Longrightarrow> valid h0 A (reads (descend_st ks s)) (ok A)"
  by (rule valid_reads) (rule descend_ok)

lemma valid_pure_value: "ok A v \<Longrightarrow> valid h0 A (reads (pure_value_st v)) (ok A)"
  by (rule valid_reads) (rule pure_value_ok)

lemma valid_elements:
  "ok A v \<Longrightarrow> valid h0 A (reads (elements_st v)) (\<lambda>xs. \<forall>x\<in>set xs. ok A x)"
  by (rule valid_reads) (rule elements_ok)

lemma valid_init:
  assumes "covers h0 A" and "ok A obj"
  shows "valid h0 A (init_st obj) (ok A)"
  unfolding valid_def
proof (intro allI impI)
  fix h assume i: "frame_inv h0 A h"
  show "frame_inv h0 A (snd (init_st obj h)) \<and> (\<forall>x. fst (init_st obj h) = Inr x \<longrightarrow> ok A x)"
  proof (cases "shape h obj")
    case (IsList xs)
    from shape_ok(1) [OF i assms(2) IsList] have "ok_obj A (HList (butlast xs))"
      by (auto simp: ok_list_obj dest: in_set_butlastD)
    from valid_alloc [OF assms(1) this] i IsList show ?thesis
      by (simp add: valid_def init_st_def)
  next
    case (IsTuple xs)
    from shape_ok(2) [OF i assms(2) IsTuple] have "ok A (HTuple (butlast xs))"
      by (auto simp: ok_tuple dest: in_set_butlastD)
    with i IsTuple show ?thesis by (simp add: init_st_def)
  qed (use i in \<open>simp_all add: init_st_def\<close>)
qed

lemma valid_ensure_list:
  assumes "covers h0 A" and "ok A v"
  shows "valid h0 A (ensure_list_st v len) (ok A)"
  unfolding valid_def
proof (intro allI impI)
  fix h assume i: "frame_inv h0 A h"
  have "ok_obj A (HList (replicate (nat len) v))"
    using assms(2) by (auto simp: ok_list_obj)
  from valid_alloc [OF assms(1) this] i assms(2)
  show "frame_inv h0 A (snd (ensure_list_st v len h)) \<and>
        (\<forall>x. fst (ensure_list_st v len h) = Inr x \<longrightarrow> ok A x)"
    by (simp add: valid_def ensure_list_st_def)
qed

lemma valid_set_dict_entry:
  assumes "ok A v" and "ok A t"
  shows "valid h0 A (set_dict_entry_st n v key_list t mode) (\<lambda>r. ok A (fst r))"
  unfolding set_dict_entry_st_def
  by (intro valid_bind [OF valid_descend] valid_bind [OF valid_pure_value]
        valid_bind [OF valid_setitem] valid_bind [OF valid_any] valid_if valid_ret valid_throw)
     (use assms in simp_all)

lemma valid_transfer_path:
  assumes "covers h0 A" and "ok A gui_values" and "ok A sim_name_list" and "ok A (fst st)"
  shows "valid h0 A (transfer_path_st n gui_values multi_variable i sim_name_list st)
           (\<lambda>st'. ok A (fst st'))"
proof -
  obtain sub_dict name_lists out where st: "st = (sub_dict, name_lists, out)" by (cases st)
  have fan: "valid h0 A
      (reads (\<lambda>h. case elements_st l h of Inl e \<Rightarrow> Inl e | Inr js \<Rightarrow> fan_out_st gui_values js h))
      (\<lambda>vs. \<forall>v\<in>set vs. ok A v)" for l
    by (rule valid_reads) (auto split: sum.splits dest: fan_out_ok [OF _ assms(2)])
  show ?thesis
    unfolding transfer_path_st_def st prod.case
    by (intro valid_bind [OF valid_getitem] valid_bind [OF valid_init]
          valid_bind [OF fan] valid_bind [OF valid_alloc] valid_bind [OF valid_set_dict_entry]
          valid_bind [OF valid_any] valid_if valid_ret)
       (use assms st in \<open>simp_all add: ok_list_obj\<close>)
qed

lemma valid_transfer_paths:
  assumes "covers h0 A" and "ok A gui_values" and "ok A sim_names"
  shows "ok A (fst st) \<Longrightarrow>
         valid h0 A (transfer_paths_st n gui_values multi_variable sim_names i k st)
           (\<lambda>st'. ok A (fst st'))"
proof (induction k arbitrary: i st)
  case 0
  then show ?case by (simp add: valid_ret)
next
  case (Suc k)
  show ?case
    unfolding transfer_paths_st.simps
    by (intro valid_bind [OF valid_getitem] valid_bind [OF valid_transfer_path] Suc.IH)
       (use assms Suc.prems in simp_all)
qed

lemma valid_transfer_entry:
  assumes "covers h0 A" and "ok A gui_entry" and "ok A (fst st)"
  shows "valid h0 A (transfer_entry_st n target_name_key value_key gui_entry st)
           (\<lambda>st'. ok A (fst st'))"
proof -
  obtain sub_dict name_lists out where st: "st = (sub_dict, name_lists, out)" by (cases st)
  show ?thesis
    unfolding transfer_entry_st_def st prod.case
    by (intro valid_bind [OF valid_getitem] valid_bind [OF valid_ensure_list]
          valid_bind [OF valid_set_dict_entry] valid_bind [OF valid_any]
          valid_transfer_paths valid_if valid_ret)
       (use assms st in simp_all)
qed

lemma valid_transfer_entries:
  assumes "covers h0 A"
  shows "\<forall>e\<in>set es. ok A e \<Longrightarrow> ok A (fst st) \<Longrightarrow>
         valid h0 A (transfer_entries_st n target_name_key value_key es st)
           (\<lambda>st'. ok A (fst st'))"
proof (induction es arbitrary: st)
  case Nil
  then show ?case by (simp add: valid_ret)
next
  case (Cons e es)
  show ?case
    unfolding transfer_entries_st.simps
    by (intro valid_bind [OF valid_transfer_entry] Cons.IH)
       (use assms Cons.prems in simp_all)
qed

lemma then_yield_ok:
  "then_yield r1 r2 = Inr rs \<Longrightarrow>
   (\<And>xs. r1 = Inr xs \<Longrightarrow> \<forall>x\<in>set xs. P x) \<Longrightarrow> (\<And>ys. r2 = Inr ys \<Longrightarrow> \<forall>y\<in>set ys. P y) \<Longrightarrow>
   \<forall>r\<in>set rs. P r"
  by (auto simp: then_yield_def split: sum.splits)

lemma gen_each_ok:
  assumes "\<forall>d rs. ok A d \<longrightarrow> gen_dict_extract_st n key d h = Inr rs \<longrightarrow> (\<forall>r\<in>set rs. ok A r)"
  shows "\<forall>d\<in>set ds. ok A d \<Longrightarrow> gen_each n key ds h = Inr rs \<Longrightarrow> \<forall>r\<in>set rs. ok A r"
proof (induction ds arbitrary: rs)
  case Nil
  then show ?case by simp
next
  case (Cons d ds)
  from Cons.prems(2) have "then_yield (gen_dict_extract_st n key d h) (gen_each n key ds h) = Inr rs"
    by simp
  then show ?case
    by (rule then_yield_ok) (use Cons assms in auto)
qed

lemma gen_items_ok:
  assumes i: "frame_inv h0 A h"
    and dict: "\<forall>d rs. ok A d \<longrightarrow> gen_dict_extract_st n key d h = Inr rs \<longrightarrow> (\<forall>r\<in>set rs. ok A r)"
    and var: "ok A var"
  shows "\<forall>kv\<in>set kvs. ok A (snd kv) \<Longrightarrow> gen_items n key var kvs h = Inr rs \<Longrightarrow>
         \<forall>r\<in>set rs. ok A r"
proof (induction kvs arbitrary: rs)
  case Nil
  then show ?case by simp
next
  case (Cons kv kvs)
  have v: "ok A (snd kv)" using Cons.prems(1) by simp
  have inner: "\<forall>r\<in>set xs. ok A r"
    if "(case shape h (snd kv) of
           IsDict kws \<Rightarrow> gen_dict_extract_st n key (snd kv) h
         | IsList ds \<Rightarrow> gen_each n key ds h
         | _ \<Rightarrow> Inr []) = Inr xs" for xs
  proof (cases "shape h (snd kv)")
    case (IsList ds)
    with that have "gen_each n key ds h = Inr xs" by simp
    with gen_each_ok [OF dict] shape_ok(1) [OF i v IsList] show ?thesis by blast
  next
    case (IsDict kws)
    with that dict v show ?thesis by simp
  qed (use that in auto)
  from Cons.prems(2) have
    "then_yield (Inr (if HStr (fst kv) = key then [var] else []))
       (then_yield
          (case shape h (snd kv) of
             IsDict kws \<Rightarrow> gen_dict_extract_st n key (snd kv) h
           | IsList ds \<Rightarrow> gen_each n key ds h
           | _ \<Rightarrow> Inr [])
          (gen_items n key var kvs h)) = Inr rs"
    by simp
  then show ?case
  proof (rule then_yield_ok)
    fix xs assume "Inr (if HStr (fst kv) = key then [var] else []) = (Inr xs :: herror + hval list)"
    with var show "\<forall>x\<in>set xs. ok A x" by (auto split: if_splits)
  next
    fix ys assume "then_yield
          (case shape h (snd kv) of
             IsDict kws \<Rightarrow> gen_dict_extract_st n key (snd kv) h
           | IsList ds \<Rightarrow> gen_each n key ds h
           | _ \<Rightarrow> Inr [])
          (gen_items n key var kvs h) = Inr ys"
    then show "\<forall>y\<in>set ys. ok A y"
      by (rule then_yield_ok) (use inner Cons in auto)
  qed
qed

lemma gen_dict_extract_ok:
  assumes i: "frame_inv h0 A h"
  shows "ok A var \<Longrightarrow> gen_dict_extract_st n key var h = Inr rs \<Longrightarrow> \<forall>r\<in>set rs. ok A r"
proof (induction n arbitrary: var rs)
  case 0
  then show ?case by simp
next
  case (Suc n)
  have dict: "\<forall>d rs. ok A d \<longrightarrow> gen_dict_extract_st n key d h = Inr rs \<longrightarrow> (\<forall>r\<in>set rs. ok A r)"
    using Suc.IH by blast
  show ?case
  proof (cases "shape h var")
    case (IsTuple ds)
    with Suc.prems(2) have "gen_each n key ds h = Inr rs" by simp
    with gen_each_ok [OF dict] shape_ok(2) [OF i Suc.prems(1) IsTuple] show ?thesis by blast
  next
    case (IsList ds)
    with Suc.prems(2) have "gen_each n key ds h = Inr rs" by simp
    with gen_each_ok [OF dict] shape_ok(1) [OF i Suc.prems(1) IsList] show ?thesis by blast
  next
    case (IsDict kvs)
    with Suc.prems(2) have "gen_items n key var kvs h = Inr rs" by simp
    with gen_items_ok [OF i dict Suc.prems(1)] shape_ok(3) [OF i Suc.prems(1) IsDict]
    show ?thesis by blast
  qed (use Suc.prems(2) in auto)
qed

lemma valid_gen_dict_extract:
  "ok A var \<Longrightarrow> valid h0 A (reads (gen_dict_extract_st n key var)) (\<lambda>rs. \<forall>r\<in>set rs. ok A r)"
  by (rule valid_reads) (rule gen_dict_extract_ok)

lemma fresh_scalar [simp]: "fresh h0 HNone" "fresh h0 (HInt i)" "fresh h0 (HStr s)"
  by (simp_all add: fresh_def)

lemma fresh_tuple: "fresh h0 (HTuple vs) \<longleftrightarrow> (\<forall>v\<in>set vs. fresh h0 v)"
  by (auto simp: fresh_def)

lemma valid_deepcopy_each:
  assumes "\<And>v memo. memo_fresh h0 memo \<Longrightarrow> valid h0 A (deepcopy_st n v memo) (copied h0)"
  shows "memo_fresh h0 memo \<Longrightarrow> valid h0 A (deepcopy_each n xs memo) (copied_each h0)"
proof (induction xs arbitrary: memo)
  case Nil
  then show ?case by (simp add: valid_ret copied_each_def)
next
  case (Cons x xs)
  show ?case
    unfolding deepcopy_each.simps
    by (intro valid_bind [OF assms] valid_bind [OF Cons.IH] valid_ret)
       (use Cons.prems in \<open>auto simp: copied_def copied_each_def\<close>)
qed

lemma valid_deepcopy_items:
  assumes "\<And>v memo. memo_fresh h0 memo \<Longrightarrow> valid h0 A (deepcopy_st n v memo) (copied h0)"
  shows "memo_fresh h0 memo \<Longrightarrow> valid h0 A (deepcopy_items n kvs memo) (copied_items h0)"
proof (induction kvs arbitrary: memo)
  case Nil
  then show ?case by (simp add: valid_ret copied_items_def)
next
  case (Cons kv kvs)
  show ?case
    unfolding deepcopy_items.simps
    by (intro valid_bind [OF assms] valid_bind [OF Cons.IH] valid_ret)
       (use Cons.prems in \<open>auto simp: copied_def copied_items_def\<close>)
qed

lemma valid_fresh_alloc:
  "covers h0 A \<Longrightarrow> ok_obj A obj \<Longrightarrow> valid h0 A (alloc obj) (fresh h0)"
  by (rule valid_weaken [OF valid_alloc]) auto

lemma valid_deepcopy:
  assumes c: "covers h0 A"
  shows "memo_fresh h0 memo \<Longrightarrow> valid h0 A (deepcopy_st n v memo) (copied h0)"
proof (induction n arbitrary: v memo)
  case 0
  then show ?case by (simp add: valid_throw)
next
  case (Suc n)
  note each = valid_deepcopy_each [where n = n, OF Suc.IH]
  note items = valid_deepcopy_items [where n = n, OF Suc.IH]
  have empty: "ok_obj A (HList [])" "ok_obj A (HDict [])" "ok_obj A (HObj HNone)"
    by (simp_all add: ok_obj_def)
  show ?case
  proof (cases v)
    case (HRef a)
    show ?thesis
    proof (cases "map_of memo a")
      case (Some y)
      from Suc.prems Some have "fresh h0 y"
        by (auto simp: memo_fresh_def dest!: map_of_SomeD)
      with HRef Some Suc.prems show ?thesis by (simp add: valid_ret copied_def)
    next
      case None
      have step: "valid h0 A
         (case sh of
            IsList xs \<Rightarrow>
              bind (alloc (HList [])) (\<lambda>y.
              bind (deepcopy_each n xs ((a, y) # memo)) (\<lambda>r.
              bind (setobj y (HList (fst r))) (\<lambda>u. ret (y, snd r))))
          | IsDict kvs \<Rightarrow>
              bind (alloc (HDict [])) (\<lambda>y.
              bind (deepcopy_items n kvs ((a, y) # memo)) (\<lambda>r.
              bind (setobj y (HDict (fst r))) (\<lambda>u. ret (y, snd r))))
          | IsObj x \<Rightarrow>
              bind (alloc (HObj HNone)) (\<lambda>y.
              bind (deepcopy_st n x ((a, y) # memo)) (\<lambda>r.
              bind (setobj y (HObj (fst r))) (\<lambda>u. ret (y, snd r))))
          | _ \<Rightarrow> throw TypeError) (copied h0)" for sh
      proof (cases sh)
        case (IsList xs)
        show ?thesis
          unfolding IsList shape.case
          by (intro valid_bind [OF valid_fresh_alloc] valid_bind [OF each]
                valid_bind [OF valid_setobj] valid_ret)
             (use c empty Suc.prems in
               \<open>auto simp: copied_def copied_each_def memo_fresh_def ok_list_obj dest: fresh_ok\<close>)
      next
        case (IsDict kvs)
        show ?thesis
          unfolding IsDict shape.case
          by (intro valid_bind [OF valid_fresh_alloc] valid_bind [OF items]
                valid_bind [OF valid_setobj] valid_ret)
             (use c empty Suc.prems in
               \<open>auto simp: copied_def copied_items_def memo_fresh_def ok_dict_obj dest: fresh_ok\<close>)
      next
        case (IsObj x)
        show ?thesis
          unfolding IsObj shape.case
          by (intro valid_bind [OF valid_fresh_alloc] valid_bind [OF Suc.IH]
                valid_bind [OF valid_setobj] valid_ret)
             (use c empty Suc.prems in
               \<open>auto simp: copied_def memo_fresh_def ok_obj_obj dest: fresh_ok\<close>)
      qed (simp_all add: valid_throw)
      show ?thesis
        unfolding deepcopy_st.simps HRef hval.case None option.case
        by (rule valid_bind [OF valid_any]) (rule step)
    qed
  next
    case (HTuple xs)
    show ?thesis
      unfolding deepcopy_st.simps HTuple hval.case
      by (intro valid_bind [OF each] valid_ret)
         (use Suc.prems in \<open>auto simp: copied_def copied_each_def fresh_tuple\<close>)
  qed (use Suc.prems in \<open>simp_all add: valid_ret copied_def\<close>)
qed

lemma valid_dict_transfer:
  assumes "covers h0 A" and "ok A source_dict"
  shows "valid h0 A (dict_transfer_st n source_dict target_dict target_name_key value_key)
           (\<lambda>r. True)"
  unfolding dict_transfer_st_def
  by (intro valid_bind [OF valid_deepcopy] valid_bind [OF valid_gen_dict_extract]
        valid_bind [OF valid_transfer_entries] valid_ret)
     (use assms in \<open>auto simp: memo_fresh_def copied_def dest: fresh_ok\<close>)

lemma closed_D:
  "closed h S \<Longrightarrow> a \<in> set S \<Longrightarrow> a < length h \<and> set (refs_obj (h ! a)) \<subseteq> set S"
  by (auto simp: closed_def list_all_iff)

lemma frame_inv_start:
  assumes "closed h S"
  shows "frame_inv h (set S \<union> {a. length h \<le> a}) h"
  using closed_D [OF assms]
  by (fastforce simp: frame_inv_def ok_obj_def)

lemma dict_transfer_inv:
  assumes "closed h S" and "set (refs_val source_dict) \<subseteq> set S"
  shows "frame_inv h (set S \<union> {a. length h \<le> a})
           (snd (dict_transfer_st n source_dict target_dict target_name_key value_key h))"
proof -
  let ?A = "set S \<union> {a. length h \<le> a}"
  have "covers h ?A" by (simp add: covers_def)
  moreover have "ok ?A source_dict" using assms(2) by (auto simp: ok_def)
  ultimately have "valid h ?A
      (dict_transfer_st n source_dict target_dict target_name_key value_key) (\<lambda>r. True)"
    by (rule valid_dict_transfer)
  with frame_inv_start [OF assms(1)] show ?thesis by (simp add: valid_def)
qed

lemma those_map_cong:
  assumes "\<forall>x\<in>set xs. f x = g x"
  shows "those (map f xs) = those (map g xs)"
proof -
  have "map f xs = map g xs" by (rule map_cong [OF refl]) (use assms in blast)
  then show ?thesis by (rule arg_cong)
qed

lemma shape_agree:
  assumes "closed h T" and "\<forall>a\<in>set T. h' ! a = h ! a" and "length h \<le> length h'"
    and "set (refs_val v) \<subseteq> set T"
  shows "shape h' v = shape h v"
proof (cases v)
  case (HRef a)
  with assms(4) have a: "a \<in> set T" by simp
  with closed_D [OF assms(1)] have "a < length h" by simp
  with assms(2,3) a HRef show ?thesis by (simp add: shape_def)
qed (simp_all add: shape_def)

lemma shape_refs:
  assumes "closed h T" and "set (refs_val v) \<subseteq> set T"
  shows "shape h v = IsList xs \<Longrightarrow> \<forall>x\<in>set xs. set (refs_val x) \<subseteq> set T"
    and "shape h v = IsTuple xs \<Longrightarrow> \<forall>x\<in>set xs. set (refs_val x) \<subseteq> set T"
    and "shape h v = IsDict kvs \<Longrightarrow> \<forall>kv\<in>set kvs. set (refs_val (snd kv)) \<subseteq> set T"
    and "shape h v = IsObj x \<Longrightarrow> set (refs_val x) \<subseteq> set T"
proof -
  have obj: "set (refs_obj (h ! a)) \<subseteq> set T" if "v = HRef a" for a
    using closed_D [OF assms(1), of a] assms(2) that by simp
  show "shape h v = IsList xs \<Longrightarrow> \<forall>x\<in>set xs. set (refs_val x) \<subseteq> set T"
    using obj by (cases v) (fastforce simp: shape_def split: if_splits hobj.splits)+
  show "shape h v = IsTuple xs \<Longrightarrow> \<forall>x\<in>set xs. set (refs_val x) \<subseteq> set T"
    using assms(2) by (cases v) (fastforce simp: shape_def split: if_splits hobj.splits)+
  show "shape h v = IsDict kvs \<Longrightarrow> \<forall>kv\<in>set kvs. set (refs_val (snd kv)) \<subseteq> set T"
    using obj by (cases v) (fastforce simp: shape_def split: if_splits hobj.splits)+
  show "shape h v = IsObj x \<Longrightarrow> set (refs_val x) \<subseteq> set T"
    using obj by (cases v) (fastforce simp: shape_def split: if_splits hobj.splits)+
qed

lemma tree_of_agree:
  assumes "closed h T" and "\<forall>a\<in>set T. h' ! a = h ! a" and "length h \<le> length h'"
  shows "set (refs_val v) \<subseteq> set T \<Longrightarrow> tree_of m h' v = tree_of m h v"
proof (induction m arbitrary: v)
  case 0
  then show ?case by simp
next
  case (Suc m)
  note sh = shape_agree [OF assms Suc.prems]
  note rf = shape_refs [OF assms(1) Suc.prems]
  show ?case
  proof (cases "shape h v")
    case (IsTuple xs)
    with sh rf(2) [OF IsTuple] show ?thesis
      by (simp add: those_map_cong [of xs "tree_of m h'" "tree_of m h"] Suc.IH)
  next
    case (IsList xs)
    with sh rf(1) [OF IsList] show ?thesis
      by (simp add: those_map_cong [of xs "tree_of m h'" "tree_of m h"] Suc.IH)
  next
    case (IsDict kvs)
    with sh rf(3) [OF IsDict] show ?thesis
      by (simp add: those_map_cong [of kvs "\<lambda>kv. tree_of m h' (snd kv)" "\<lambda>kv. tree_of m h (snd kv)"] Suc.IH)
  next
    case (IsObj x)
    with sh rf(4) [OF IsObj] show ?thesis by (simp add: Suc.IH)
  qed (use sh in simp_all)
qed

text \<open>
  Claim C1, amended. Let \<open>S\<close> hold every object reachable from the source and \<open>T\<close>
  every object reachable from the target, and let no object be in both. Then a call of
  \<^verbatim>\<open>dict_transfer\<close>, whether it returns or raises, leaves every object of \<open>T\<close> as it was,
  and the target read back from the store is the tree it was before the call: the writes
  go to the deep copy, to objects created during the call and to objects reachable from
  the source.
\<close>

theorem dict_transfer_frame:
  assumes "closed h S" and "set (refs_val source_dict) \<subseteq> set S"
    and "closed h T" and "set (refs_val target_dict) \<subseteq> set T"
    and "set S \<inter> set T = {}"
  shows "(\<forall>a\<in>set T.
            snd (dict_transfer_st n source_dict target_dict target_name_key value_key h) ! a = h ! a) \<and>
         tree_of m (snd (dict_transfer_st n source_dict target_dict target_name_key value_key h)) target_dict
           = tree_of m h target_dict"
proof -
  let ?h' = "snd (dict_transfer_st n source_dict target_dict target_name_key value_key h)"
  note i = dict_transfer_inv [OF assms(1,2), of n target_dict target_name_key value_key]
  have same: "\<forall>a\<in>set T. ?h' ! a = h ! a"
  proof
    fix a assume a: "a \<in> set T"
    with closed_D [OF assms(3)] have "a < length h" by simp
    moreover from a assms(5) have "a \<notin> set S" by auto
    ultimately show "?h' ! a = h ! a" using i by (simp add: frame_inv_def)
  qed
  have "length h \<le> length ?h'" using i by (simp add: frame_inv_def)
  from tree_of_agree [OF assms(3) same this assms(4)] same show ?thesis by simp
qed

lemma run_A:
  "dict_transfer_st 3 (HRef 0) (HRef 3) (HStr ''sim_name'') (HStr ''value'') store_A =
     (Inr (HRef 5, [HRef 2]),
      store_A @ [HDict [(''a'', HRef 6)], HDict [(''b'', HInt 5)]])"
  by code_simp

lemma run_shared:
  "snd (dict_transfer_st 3 (HRef 0) (HRef 5) (HStr ''sim_name'') (HStr ''value'') store_shared) ! 6
     = HDict [(''k'', HInt 7)]"
  by code_simp

theorem dict_transfer_frame_witness:
  "closed store_A [0, 1, 2] \<and> closed store_A [3, 4] \<and>
   fst (dict_transfer_st 3 (HRef 0) (HRef 3) (HStr ''sim_name'') (HStr ''value'') store_A)
     = Inr (HRef 5, [HRef 2]) \<and>
   tree_of 3 (snd (dict_transfer_st 3 (HRef 0) (HRef 3) (HStr ''sim_name'') (HStr ''value'') store_A))
     (HRef 3) = tree_of 3 store_A (HRef 3)"
  using dict_transfer_frame [of store_A "[0, 1, 2]" "HRef 0" "[3, 4]" "HRef 3" 3
      "HStr ''sim_name''" "HStr ''value''" 3] run_A
  by (simp add: closed_def store_A_def)

text \<open>
  Claim C1 as stated fails when the source and the target share an object. In
  \<open>store_shared\<close> the first element stores the shared dictionary \<^verbatim>\<open>D\<close> under \<^verbatim>\<open>'a'\<close> of
  the copy, and the second element writes \<^verbatim>\<open>7\<close> through the path \<^verbatim>\<open>['a', 'k']\<close> into
  \<^verbatim>\<open>D\<close> itself: the caller's target is \<^verbatim>\<open>{'a': 0, 'b': {'k': 0}}\<close> before the call and
  \<^verbatim>\<open>{'a': 0, 'b': {'k': 7}}\<close> after it.
\<close>

theorem dict_transfer_shared_counterexample:
  "tree_of 3 store_shared (HRef 5)
     = Some (PDict [(''a'', PInt 0), (''b'', PDict [(''k'', PInt 0)])]) \<and>
   tree_of 3
     (snd (dict_transfer_st 3 (HRef 0) (HRef 5) (HStr ''sim_name'') (HStr ''value'') store_shared))
     (HRef 5)
     = Some (PDict [(''a'', PInt 0), (''b'', PDict [(''k'', PInt 7)])])"
  by code_simp

text \<open>
  On the scenarios the store model returns what the value model returns: scenario A,
  scenario C, an element without a value in the single-path case (its path is recorded,
  nothing is written) and in the multi-path case (\<^verbatim>\<open>KeyError\<close>).
\<close>

lemma store_scenario_A:
  "read_back 3 (dict_transfer_st 3 (HRef 0) (HRef 3) (HStr ''sim_name'') (HStr ''value'') store_A)
   = Inr (Some (PDict [(''a'', PDict [(''b'', PInt 5)])]), [Some (PList [PStr ''a'', PStr ''b''])])"
  by code_simp

lemma store_scenario_C:
  "read_back 4 (dict_transfer_st 8 (HRef 0) (HRef 6) (HStr ''sim_name'') (HStr ''value'') store_C)
   = Inr (Some (PDict [(''x'', PList [PInt 10, PInt 30])]), [Some (PList [PStr ''x''])])"
  by code_simp

lemma store_no_value_single:
  "read_back 4 (dict_transfer_st 8 (HRef 1) (HRef 6) (HStr ''sim_name'') (HStr ''value'') store_no_value)
   = Inr (Some (PDict [(''a'', PInt 0)]), [Some (PList [PStr ''a''])])"
  by code_simp

lemma store_no_value_multi:
  "read_back 4 (dict_transfer_st 8 (HRef 0) (HRef 6) (HStr ''sim_name'') (HStr ''value'') store_no_value)
   = Inl KeyError"
  by code_simp

end
